theory Spec2Isabelle
  imports Main "HOL-Library.Multiset" "HOL-Library.Product_Lexorder" "HOL-Library.AList"
begin

section \<open>Event ordering (front_end/models/trace/helpers/Trace.ts)\<close>

text \<open>
  Timestamps and durations are microsecond counts; they are modelled as unbounded
  integers. An absent \<open>dur\<close> (\<open>dur?: MicroSeconds\<close>) is \<open>None\<close>.
\<close>

record TimeSpan =
  ts :: int
  dur :: "int option"

text \<open>\<open>a.dur ?? 0\<close>\<close>

definition durOrZero :: "'a TimeSpan_scheme \<Rightarrow> int" where
  "durOrZero a = (case dur a of None \<Rightarrow> 0 | Some d \<Rightarrow> d)"

definition eventTimeComparator :: "'a TimeSpan_scheme \<Rightarrow> 'b TimeSpan_scheme \<Rightarrow> int" where
  "eventTimeComparator a b =
     (let aBeginTime = ts a; bBeginTime = ts b in
      if aBeginTime < bBeginTime then - 1
      else if aBeginTime > bBeginTime then 1
      else
        let aDuration = durOrZero a;
            bDuration = durOrZero b;
            aEndTime = aBeginTime + aDuration;
            bEndTime = bBeginTime + bDuration in
        if aEndTime > bEndTime then - 1
        else if aEndTime < bEndTime then 1
        else 0)"

text \<open>
  \<open>Array.prototype.sort(compareFn)\<close> is the language's built-in sort; ECMAScript
  specifies it to be stable. It is modelled as the stable insertion sort driven by the
  comparison function: an element is placed before the first element it does not
  compare greater than.
\<close>

fun insertBy :: "('a \<Rightarrow> 'a \<Rightarrow> int) \<Rightarrow> 'a \<Rightarrow> 'a list \<Rightarrow> 'a list" where
  "insertBy compareFn x [] = [x]"
| "insertBy compareFn x (y # ys) =
     (if compareFn x y \<le> 0 then x # y # ys else y # insertBy compareFn x ys)"

definition arraySort :: "('a \<Rightarrow> 'a \<Rightarrow> int) \<Rightarrow> 'a list \<Rightarrow> 'a list" where
  "arraySort compareFn xs = foldr (insertBy compareFn) xs []"

definition sortTraceEventsInPlace :: "'a TimeSpan_scheme list \<Rightarrow> 'a TimeSpan_scheme list" where
  "sortTraceEventsInPlace events = arraySort eventTimeComparator events"

text \<open>
  The first loop of \<open>mergeEventsInOrder\<close>, on the two cursors \<open>i\<close> and \<open>j\<close> and the
  \<open>result\<close> built so far. Both \<open>if\<close> statements of the loop body are kept as they are
  written: the first tests \<open>compareValue <= 0\<close>, the second \<open>compareValue === 1\<close>.
  It returns the result and the two cursors.
\<close>

function mergeLoop ::
  "'a TimeSpan_scheme list \<Rightarrow> 'a TimeSpan_scheme list \<Rightarrow> nat \<Rightarrow> nat \<Rightarrow>
   'a TimeSpan_scheme list \<Rightarrow> 'a TimeSpan_scheme list \<times> nat \<times> nat" where
  "mergeLoop eventsArray1 eventsArray2 i j result =
     (if i < length eventsArray1 \<and> j < length eventsArray2 then
        (if eventTimeComparator (eventsArray1 ! i) (eventsArray2 ! j) \<le> 0 then
           (if eventTimeComparator (eventsArray1 ! i) (eventsArray2 ! j) = 1 then
              mergeLoop eventsArray1 eventsArray2 (i + 1) (j + 1)
                (result @ [eventsArray1 ! i] @ [eventsArray2 ! j])
            else mergeLoop eventsArray1 eventsArray2 (i + 1) j (result @ [eventsArray1 ! i]))
         else
           (if eventTimeComparator (eventsArray1 ! i) (eventsArray2 ! j) = 1 then
              mergeLoop eventsArray1 eventsArray2 i (j + 1) (result @ [eventsArray2 ! j])
            else mergeLoop eventsArray1 eventsArray2 i j result))
      else (result, i, j))"
  by pat_completeness auto

lemma eventTimeComparator_range:
  "eventTimeComparator a b = - 1 \<or> eventTimeComparator a b = 0 \<or> eventTimeComparator a b = 1"
  by (simp add: eventTimeComparator_def Let_def)

termination mergeLoop
proof (relation "measure (\<lambda>(a, b, i, j, r). (length a - i) + (length b - j))", goal_cases)
  case 1
  show ?case by simp
next
  case (2 a b i j r)
  then show ?case by auto
next
  case (3 a b i j r)
  then show ?case by auto
next
  case (4 a b i j r)
  then show ?case by auto
next
  case (5 a b i j r)
  then show ?case
    using eventTimeComparator_range [of "a ! i" "b ! j"] by auto
qed

declare mergeLoop.simps [simp del]

text \<open>The two trailing loops push the rest of either array.\<close>

definition mergeEventsInOrder ::
  "'a TimeSpan_scheme list \<Rightarrow> 'a TimeSpan_scheme list \<Rightarrow> 'a TimeSpan_scheme list" where
  "mergeEventsInOrder eventsArray1 eventsArray2 =
     (case mergeLoop eventsArray1 eventsArray2 0 0 [] of
        (result, i, j) \<Rightarrow> result @ drop i eventsArray1 @ drop j eventsArray2)"

section \<open>Async pairing (front_end/models/trace/helpers/Trace.ts)\<close>

text \<open>
  The phase tags of \<open>Types.TraceEvents.Phase\<close> that the code names; every other tag
  of the enumeration is an \<open>OtherPhase\<close>.
\<close>

datatype Phase =
    ASYNC_NESTABLE_START
  | ASYNC_NESTABLE_INSTANT
  | ASYNC_NESTABLE_END
  | COMPLETE
  | OtherPhase string

text \<open>\<open>id2?: {local?: string, global?: string}\<close>\<close>

record Id2 =
  global :: "string option"
  local :: "string option"

text \<open>
  A trace event with the fields the code reads. The source field \<open>id\<close> is \<open>id_str\<close>
  here.
\<close>

record TraceEventData = TimeSpan +
  cat :: string
  name :: string
  ph :: Phase
  pid :: int
  tid :: int
  id_str :: "string option"
  id2 :: "Id2 option"

text \<open>
  \<open>TraceEventSyntheticNestableAsyncEvent\<close>: the fields \<open>args.data.beginEvent\<close> and
  \<open>args.data.endEvent\<close> extend the event.
\<close>

record SyntheticNestableAsyncEvent = TraceEventData +
  beginEvent :: TraceEventData
  endEvent :: TraceEventData

text \<open>\<open>event.id ?? event.id2?.global ?? event.id2?.local\<close>\<close>

definition extractId :: "'a TraceEventData_scheme \<Rightarrow> string option" where
  "extractId event =
     (case id_str event of
        Some i \<Rightarrow> Some i
      | None \<Rightarrow>
          (case id2 event of
             None \<Rightarrow> None
           | Some i2 \<Rightarrow> (case global i2 of Some g \<Rightarrow> Some g | None \<Rightarrow> local i2)))"

text \<open>
  The value type of the \<open>matchedPairs\<close> map, \<open>{begin: ... | null, end: ... | null}\<close>;
  the two fields are \<open>pairBegin\<close> and \<open>pairEnd\<close> here. The map itself is a JavaScript
  \<open>Map\<close>, which iterates in the order its keys were first set: an association list
  with \<open>map_of\<close> for \<open>get\<close> and \<open>AList.update\<close> for \<open>set\<close> (a present key keeps
  its place, a new key goes last).
\<close>

record EventsPair =
  pairBegin :: "TraceEventData option"
  pairEnd :: "TraceEventData option"

type_synonym MatchedPairs = "(string \<times> EventsPair) list"

text \<open>
  Modelled from the spec: \<open>Platform.MapUtilities.getWithDefault\<close> is not among the
  sources. It returns the value stored under the key; when there is none it stores the
  default under the key first (the spec's "maintain, per key, at most one begin slot
  and one end slot"). It returns the value and the map.
\<close>

definition getWithDefault :: "MatchedPairs \<Rightarrow> string \<Rightarrow> EventsPair \<Rightarrow> EventsPair \<times> MatchedPairs" where
  "getWithDefault m key defaultValue =
     (case map_of m key of
        Some v \<Rightarrow> (v, m)
      | None \<Rightarrow> (defaultValue, AList.update key defaultValue m))"

text \<open>
  The body of the loop of \<open>matchBeginningAndEndEvents\<close>. The assignment to a field of
  \<open>otherEventsWithID\<close> writes to the object stored in the map, hence the update of the
  map under \<open>syntheticId\<close>.
\<close>

definition matchStep :: "MatchedPairs \<Rightarrow> TraceEventData \<Rightarrow> MatchedPairs" where
  "matchStep matchedPairs event =
     (case extractId event of
        None \<Rightarrow> matchedPairs
      | Some i \<Rightarrow>
          (let syntheticId = cat event @ '':'' @ i @ '':'' @ name event in
           case getWithDefault matchedPairs syntheticId \<lparr>pairBegin = None, pairEnd = None\<rparr> of
             (otherEventsWithID, matchedPairs1) \<Rightarrow>
               (let isStartEvent = (ph event = ASYNC_NESTABLE_START);
                    isEndEvent = (ph event = ASYNC_NESTABLE_END) in
                if isStartEvent then
                  AList.update syntheticId (otherEventsWithID\<lparr>pairBegin := Some event\<rparr>) matchedPairs1
                else if isEndEvent then
                  AList.update syntheticId (otherEventsWithID\<lparr>pairEnd := Some event\<rparr>) matchedPairs1
                else matchedPairs1)))"

definition matchBeginningAndEndEvents :: "TraceEventData list \<Rightarrow> MatchedPairs" where
  "matchBeginningAndEndEvents unpairedEvents = foldl matchStep [] unpairedEvents"

text \<open>The object literal of \<open>createSortedSyntheticEvents\<close>.\<close>

definition syntheticEvent :: "string \<Rightarrow> TraceEventData \<Rightarrow> TraceEventData \<Rightarrow> SyntheticNestableAsyncEvent" where
  "syntheticEvent i b e =
     \<lparr>ts = ts b,
      dur = Some (ts e - ts b),
      cat = cat e,
      name = name b,
      ph = ph e,
      pid = pid e,
      tid = tid e,
      id_str = Some i,
      id2 = None,
      beginEvent = b,
      endEvent = e\<rparr>"

text \<open>
  The body of the loop over \<open>matchedPairs.entries()\<close>: both \<open>continue\<close> statements
  leave \<open>syntheticEvents\<close> as it is.
\<close>

definition syntheticStep ::
  "SyntheticNestableAsyncEvent list \<Rightarrow> string \<times> EventsPair \<Rightarrow> SyntheticNestableAsyncEvent list" where
  "syntheticStep syntheticEvents entry =
     (case entry of (i, eventsPair) \<Rightarrow>
        (case pairBegin eventsPair of
           None \<Rightarrow> syntheticEvents
         | Some b \<Rightarrow>
             (case pairEnd eventsPair of
                None \<Rightarrow> syntheticEvents
              | Some e \<Rightarrow>
                  (let event = syntheticEvent i b e in
                   if (case dur event of Some d \<Rightarrow> d < 0 | None \<Rightarrow> False) then syntheticEvents
                   else syntheticEvents @ [event]))))"

text \<open>\<open>syntheticEvents.sort((a, b) => a.ts - b.ts)\<close>\<close>

definition createSortedSyntheticEvents :: "MatchedPairs \<Rightarrow> SyntheticNestableAsyncEvent list" where
  "createSortedSyntheticEvents matchedPairs =
     arraySort (\<lambda>a b. ts a - ts b) (foldl syntheticStep [] matchedPairs)"

definition createMatchedSortedSyntheticEvents :: "TraceEventData list \<Rightarrow> SyntheticNestableAsyncEvent list" where
  "createMatchedSortedSyntheticEvents unpairedAsyncEvents =
     (let matchedPairs = matchBeginningAndEndEvents unpairedAsyncEvents;
          syntheticEvents = createSortedSyntheticEvents matchedPairs
      in syntheticEvents)"

section \<open>Tree visibility engine (TreeManipulator)\<close>

text \<open>
  Entries are compared by object identity in the source (\<open>===\<close>, \<open>Set\<close> and \<open>Map\<close>
  keys). The type \<open>'e\<close> of entries stands for these identities, and HOL equality on
  \<open>'e\<close> for \<open>===\<close>.
\<close>

text \<open>
  Modelled from the spec: the type \<open>RendererEntryNodeId\<close> is declared in the renderer
  handler, which is not among the sources; the spec calls it an opaque node id. It is a
  number here (the handler numbers the nodes), so the test \<open>!id\<close> of the traversal
  holds of the id \<open>0\<close> and of no other.
\<close>

type_synonym RendererEntryNodeId = nat

record 'e RendererEntryNode =
  entry :: 'e
  childrenIds :: "RendererEntryNodeId list"

record 'e RendererTree =
  nodes :: "RendererEntryNodeId \<rightharpoonup> 'e RendererEntryNode"

record 'e RendererThread =
  entries :: "'e list"
  tree :: "'e RendererTree option"

datatype ActionType = MERGE_FUNCTION | COLLAPSE_FUNCTION

text \<open>\<open>UserTreeAction\<close>: the fields \<open>type\<close> and \<open>entry\<close>.\<close>

record 'e UserTreeAction =
  actionType :: ActionType
  actionEntry :: 'e

text \<open>The private fields of the class.\<close>

record 'e TreeManipulator =
  thread :: "'e RendererThread"
  entryToNode :: "'e \<rightharpoonup> 'e RendererEntryNode"
  lastVisibleEntries :: "'e list option"
  activeActions :: "'e UserTreeAction list"

definition newTreeManipulator ::
  "'e RendererThread \<Rightarrow> ('e \<rightharpoonup> 'e RendererEntryNode) \<Rightarrow> 'e TreeManipulator" where
  "newTreeManipulator thread0 entryToNode0 =
     \<lparr>thread = thread0, entryToNode = entryToNode0, lastVisibleEntries = None, activeActions = []\<rparr>"

definition actionIsActive :: "'e TreeManipulator \<Rightarrow> 'e UserTreeAction \<Rightarrow> bool" where
  "actionIsActive s action =
     list_ex (\<lambda>activeAction.
        actionEntry action = actionEntry activeAction \<and> actionType action = actionType activeAction)
       (activeActions s)"

definition applyAction :: "'e UserTreeAction \<Rightarrow> 'e TreeManipulator \<Rightarrow> 'e TreeManipulator" where
  "applyAction action s =
     (if actionIsActive s action then s
      else s\<lparr>activeActions := activeActions s @ [action], lastVisibleEntries := None\<rparr>)"

text \<open>
  The \<open>filter\<close> call of \<open>removeActiveAction\<close> with its callback, which sets the flag
  \<open>removedAction\<close> at every action it drops: the kept actions and the flag.
\<close>

fun removeFilter :: "'e UserTreeAction \<Rightarrow> 'e UserTreeAction list \<Rightarrow> 'e UserTreeAction list \<times> bool" where
  "removeFilter action [] = ([], False)"
| "removeFilter action (activeAction # rest) =
     (case removeFilter action rest of
        (kept, removedAction) \<Rightarrow>
          if actionType activeAction = actionType action \<and> actionEntry activeAction = actionEntry action
          then (kept, True)
          else (activeAction # kept, removedAction))"

definition removeActiveAction :: "'e UserTreeAction \<Rightarrow> 'e TreeManipulator \<Rightarrow> 'e TreeManipulator" where
  "removeActiveAction action s =
     (case removeFilter action (activeActions s) of
        (kept, removedAction) \<Rightarrow>
          if removedAction then s\<lparr>activeActions := kept, lastVisibleEntries := None\<rparr>
          else s\<lparr>activeActions := kept\<rparr>)"

text \<open>
  The \<open>while\<close> loop of \<open>#findAllAncestorsOfNode\<close> on the queue \<open>childIds\<close> and the
  list \<open>ancestors\<close>. \<open>shift()\<close> takes the head of the queue; a falsy id (\<open>0\<close>) leaves
  the loop; the children of a node that is found go to the back of the queue. The loop
  need not end (a node may be its own descendant), so the result is an option and
  \<open>None\<close> stands for a loop that runs forever.
\<close>

partial_function (option) findAllAncestorsLoop ::
  "'e RendererTree \<Rightarrow> RendererEntryNodeId list \<Rightarrow> 'e list \<Rightarrow> 'e list option" where
  "findAllAncestorsLoop tree0 childIds ancestors =
     (case childIds of
        [] \<Rightarrow> Some ancestors
      | i # rest \<Rightarrow>
          if i = 0 then Some ancestors
          else
            (case nodes tree0 i of
               Some childNode \<Rightarrow>
                 findAllAncestorsLoop tree0 (rest @ childrenIds childNode) (ancestors @ [entry childNode])
             | None \<Rightarrow> findAllAncestorsLoop tree0 rest ancestors))"

definition findAllAncestorsOfNode :: "'e RendererTree \<Rightarrow> 'e RendererEntryNode \<Rightarrow> 'e list option" where
  "findAllAncestorsOfNode tree0 root = findAllAncestorsLoop tree0 (childrenIds root) []"

text \<open>
  The loop over \<open>activeActions\<close> in \<open>#calculateVisibleEntries\<close>, on the set
  \<open>entriesToHide\<close>.
\<close>

fun hideLoop ::
  "('e \<rightharpoonup> 'e RendererEntryNode) \<Rightarrow> 'e RendererTree \<Rightarrow> 'e UserTreeAction list \<Rightarrow> 'e set \<Rightarrow> 'e set option" where
  "hideLoop entryToNode0 tree0 [] entriesToHide = Some entriesToHide"
| "hideLoop entryToNode0 tree0 (action # rest) entriesToHide =
     (case actionType action of
        MERGE_FUNCTION \<Rightarrow> hideLoop entryToNode0 tree0 rest (insert (actionEntry action) entriesToHide)
      | COLLAPSE_FUNCTION \<Rightarrow>
          (case entryToNode0 (actionEntry action) of
             None \<Rightarrow> hideLoop entryToNode0 tree0 rest entriesToHide
           | Some entryNode \<Rightarrow>
               (case findAllAncestorsOfNode tree0 entryNode of
                  None \<Rightarrow> None
                | Some allAncestors \<Rightarrow>
                    hideLoop entryToNode0 tree0 rest (entriesToHide \<union> set allAncestors))))"

text \<open>
  \<open>#calculateVisibleEntries\<close> returns the visible entries and the manipulator, whose
  cache it may have filled; \<open>None\<close> when a traversal does not end.
\<close>

definition calculateVisibleEntries :: "'e TreeManipulator \<Rightarrow> ('e list \<times> 'e TreeManipulator) option" where
  "calculateVisibleEntries s =
     (case lastVisibleEntries s of
        Some cached \<Rightarrow> Some (cached, s)
      | None \<Rightarrow>
          (case tree (thread s) of
             None \<Rightarrow> Some (entries (thread s), s)
           | Some tree0 \<Rightarrow>
               (case hideLoop (entryToNode s) tree0 (activeActions s) {} of
                  None \<Rightarrow> None
                | Some entriesToHide \<Rightarrow>
                    (let visible = filter (\<lambda>entry. entry \<notin> entriesToHide) (entries (thread s))
                     in Some (visible, s\<lparr>lastVisibleEntries := Some visible\<rparr>)))))"

definition visibleEntries :: "'e TreeManipulator \<Rightarrow> ('e list \<times> 'e TreeManipulator) option" where
  "visibleEntries s =
     (if length (activeActions s) = 0 then Some (entries (thread s), s)
      else calculateVisibleEntries s)"

text \<open>
  The manipulators a client can obtain: the constructor's, and those the three public
  methods lead to.
\<close>

inductive reachable ::
  "'e RendererThread \<Rightarrow> ('e \<rightharpoonup> 'e RendererEntryNode) \<Rightarrow> 'e TreeManipulator \<Rightarrow> bool"
  for thread0 entryToNode0 where
  constructed: "reachable thread0 entryToNode0 (newTreeManipulator thread0 entryToNode0)"
| applied: "reachable thread0 entryToNode0 s \<Longrightarrow> reachable thread0 entryToNode0 (applyAction action s)"
| removed: "reachable thread0 entryToNode0 s \<Longrightarrow> reachable thread0 entryToNode0 (removeActiveAction action s)"
| queried: "reachable thread0 entryToNode0 s \<Longrightarrow> visibleEntries s = Some (visible, s') \<Longrightarrow>
     reachable thread0 entryToNode0 s'"

section \<open>Specification vocabulary\<close>

subsection \<open>Event order\<close>

text \<open>The end time of a time span; an absent duration counts as \<open>0\<close>.\<close>

definition endTime :: "'a TimeSpan_scheme \<Rightarrow> int" where
  "endTime a = ts a + (case dur a of None \<Rightarrow> 0 | Some d \<Rightarrow> d)"

text \<open>
  A collection is in canonical order when the comparator puts no element after a later
  one.
\<close>

definition inOrder :: "'a TimeSpan_scheme list \<Rightarrow> bool" where
  "inOrder events = sorted_wrt (\<lambda>a b. eventTimeComparator a b \<le> 0) events"

text \<open>
  The comparator compares these keys lexicographically: start time, then the negated end
  time.
\<close>

definition orderKey :: "'a TimeSpan_scheme \<Rightarrow> int \<times> int" where
  "orderKey a = (ts a, - endTime a)"

text \<open>The merge on lists, which the cursor loop is shown to compute.\<close>

fun mergeLists :: "'a TimeSpan_scheme list \<Rightarrow> 'a TimeSpan_scheme list \<Rightarrow> 'a TimeSpan_scheme list" where
  "mergeLists (x # xs) (y # ys) =
     (if eventTimeComparator x y \<le> 0 then x # mergeLists xs (y # ys)
      else y # mergeLists (x # xs) ys)"
| "mergeLists xs [] = xs"
| "mergeLists [] ys = ys"

subsection \<open>Pairing\<close>

text \<open>The grouping key of an event: category, identifier and name, joined by colons.\<close>

definition eventKey :: "'a TraceEventData_scheme \<Rightarrow> string option" where
  "eventKey event =
     (case extractId event of
        None \<Rightarrow> None
      | Some i \<Rightarrow> Some (cat event @ '':'' @ i @ '':'' @ name event))"

definition withKey :: "string \<Rightarrow> TraceEventData list \<Rightarrow> TraceEventData list" where
  "withKey k events = filter (\<lambda>e. eventKey e = Some k) events"

definition lastOf :: "'a list \<Rightarrow> 'a option" where
  "lastOf xs = (if xs = [] then None else Some (last xs))"

text \<open>The last begin event and the last end event of a key.\<close>

definition lastBegin :: "string \<Rightarrow> TraceEventData list \<Rightarrow> TraceEventData option" where
  "lastBegin k events = lastOf (filter (\<lambda>e. ph e = ASYNC_NESTABLE_START) (withKey k events))"

definition lastEnd :: "string \<Rightarrow> TraceEventData list \<Rightarrow> TraceEventData option" where
  "lastEnd k events = lastOf (filter (\<lambda>e. ph e = ASYNC_NESTABLE_END) (withKey k events))"

text \<open>What a key contributes to the output, given its begin slot and its end slot.\<close>

definition pairOutput ::
  "string \<Rightarrow> TraceEventData option \<Rightarrow> TraceEventData option \<Rightarrow> SyntheticNestableAsyncEvent list" where
  "pairOutput k b e =
     (case b of
        None \<Rightarrow> []
      | Some b' \<Rightarrow>
          (case e of
             None \<Rightarrow> []
           | Some e' \<Rightarrow> if ts e' < ts b' then [] else [syntheticEvent k b' e']))"

definition synthOf :: "string \<times> EventsPair \<Rightarrow> SyntheticNestableAsyncEvent list" where
  "synthOf entry0 = (case entry0 of (i, p) \<Rightarrow> pairOutput i (pairBegin p) (pairEnd p))"

text \<open>An event for the examples.\<close>

definition exampleEvent :: "string \<Rightarrow> Phase \<Rightarrow> int \<Rightarrow> int option \<Rightarrow> string option \<Rightarrow> TraceEventData" where
  "exampleEvent n p t d i =
     \<lparr>ts = t, dur = d, cat = ''blink.user_timing'', name = n, ph = p, pid = 1, tid = 1,
      id_str = i, id2 = None\<rparr>"

subsection \<open>Trees\<close>

text \<open>
  The nodes reached from a set of ids by following children ids through the node map of
  the tree; the strict descendants of a node are those reached from its children ids.
\<close>

inductive_set reachNodes :: "'e RendererTree \<Rightarrow> RendererEntryNodeId set \<Rightarrow> 'e RendererEntryNode set"
  for tree0 ids where
  start: "i \<in> ids \<Longrightarrow> nodes tree0 i = Some n \<Longrightarrow> n \<in> reachNodes tree0 ids"
| step: "m \<in> reachNodes tree0 ids \<Longrightarrow> c \<in> set (childrenIds m) \<Longrightarrow> nodes tree0 c = Some n \<Longrightarrow>
     n \<in> reachNodes tree0 ids"

definition strictDescendants :: "'e RendererTree \<Rightarrow> 'e RendererEntryNode \<Rightarrow> 'e RendererEntryNode set" where
  "strictDescendants tree0 root = reachNodes tree0 (set (childrenIds root))"

text \<open>The pairs (child id, parent id) of the tree; the tree is acyclic when this is well-founded.\<close>

definition childRel :: "'e RendererTree \<Rightarrow> (RendererEntryNodeId \<times> RendererEntryNodeId) set" where
  "childRel tree0 = {(c, i). \<exists>n. nodes tree0 i = Some n \<and> c \<in> set (childrenIds n)}"

text \<open>What one action hides, and what a list of actions hides.\<close>

definition hiddenBy ::
  "('e \<rightharpoonup> 'e RendererEntryNode) \<Rightarrow> 'e RendererTree \<Rightarrow> 'e UserTreeAction \<Rightarrow> 'e set" where
  "hiddenBy entryToNode0 tree0 action =
     (case actionType action of
        MERGE_FUNCTION \<Rightarrow> {actionEntry action}
      | COLLAPSE_FUNCTION \<Rightarrow>
          (case entryToNode0 (actionEntry action) of
             None \<Rightarrow> {}
           | Some n \<Rightarrow> entry ` strictDescendants tree0 n))"

text \<open>
  The ids met when following children ids from a set of ids, with or without a node, and
  the ids below a node: those met from its children ids.
\<close>

inductive_set reachIds :: "'e RendererTree \<Rightarrow> RendererEntryNodeId set \<Rightarrow> RendererEntryNodeId set"
  for tree0 ids where
  start: "i \<in> ids \<Longrightarrow> i \<in> reachIds tree0 ids"
| step: "i \<in> reachIds tree0 ids \<Longrightarrow> nodes tree0 i = Some n \<Longrightarrow> c \<in> set (childrenIds n) \<Longrightarrow>
     c \<in> reachIds tree0 ids"

definition descendantIds :: "'e RendererTree \<Rightarrow> 'e RendererEntryNode \<Rightarrow> RendererEntryNodeId set" where
  "descendantIds tree0 root = reachIds tree0 (set (childrenIds root))"

text \<open>
  The tree is acyclic below a node when following children ids from the node always
  ends; no id below the node is falsy; the lookup from entries to nodes knows every
  strict descendant of the node under its entry.
\<close>

definition acyclicBelow :: "'e RendererTree \<Rightarrow> 'e RendererEntryNode \<Rightarrow> bool" where
  "acyclicBelow tree0 root \<longleftrightarrow> wf {(c, i). i \<in> descendantIds tree0 root \<and> (c, i) \<in> childRel tree0}"

definition truthyBelow :: "'e RendererTree \<Rightarrow> 'e RendererEntryNode \<Rightarrow> bool" where
  "truthyBelow tree0 root \<longleftrightarrow> 0 \<notin> descendantIds tree0 root"

definition knowsDescendants ::
  "('e \<rightharpoonup> 'e RendererEntryNode) \<Rightarrow> 'e RendererTree \<Rightarrow> 'e RendererEntryNode \<Rightarrow> bool" where
  "knowsDescendants etn tree0 root \<longleftrightarrow> (\<forall>d\<in>strictDescendants tree0 root. etn (entry d) = Some d)"

text \<open>The nodes of the \<open>COLLAPSE_FUNCTION\<close> actions of a list whose entry has a node.\<close>

definition collapsedNodes ::
  "('e \<rightharpoonup> 'e RendererEntryNode) \<Rightarrow> 'e UserTreeAction list \<Rightarrow> 'e RendererEntryNode set" where
  "collapsedNodes etn acts =
     {n. \<exists>a\<in>set acts. actionType a = COLLAPSE_FUNCTION \<and> etn (actionEntry a) = Some n}"

definition hiddenEntries ::
  "('e \<rightharpoonup> 'e RendererEntryNode) \<Rightarrow> 'e RendererTree \<Rightarrow> 'e UserTreeAction list \<Rightarrow> 'e set" where
  "hiddenEntries etn t acts = (\<Union>a\<in>set acts. hiddenBy etn t a)"

text \<open>
  What one action adds to \<open>entriesToHide\<close> when its traversal returns, read off the two
  branches of the \<open>switch\<close>.
\<close>

definition actionHides ::
  "('e \<rightharpoonup> 'e RendererEntryNode) \<Rightarrow> 'e RendererTree \<Rightarrow> 'e UserTreeAction \<Rightarrow> 'e set" where
  "actionHides etn t action =
     (case actionType action of
        MERGE_FUNCTION \<Rightarrow> {actionEntry action}
      | COLLAPSE_FUNCTION \<Rightarrow>
          (case etn (actionEntry action) of
             None \<Rightarrow> {}
           | Some n \<Rightarrow> (case findAllAncestorsOfNode t n of None \<Rightarrow> {} | Some l \<Rightarrow> set l)))"

text \<open>
  The invariant of the cache: a cached list was computed from the present actions, on a
  thread with a tree.
\<close>

definition cacheValid ::
  "'e RendererThread \<Rightarrow> ('e \<rightharpoonup> 'e RendererEntryNode) \<Rightarrow> 'e TreeManipulator \<Rightarrow> bool" where
  "cacheValid th etn s \<longleftrightarrow>
     thread s = th \<and> entryToNode s = etn \<and>
     (case lastVisibleEntries s of
        None \<Rightarrow> True
      | Some c \<Rightarrow>
          activeActions s \<noteq> [] \<and>
          (\<exists>t H. tree th = Some t \<and> hideLoop etn t (activeActions s) {} = Some H
             \<and> c = filter (\<lambda>x. x \<notin> H) (entries th)))"

text \<open>
  The example of the specification: the root \<open>R\<close> has the children \<open>A\<close> and \<open>B\<close>, and
  \<open>A\<close> has the child \<open>A1\<close>. The same entries on a thread with no tree.
\<close>

definition exampleNodes :: "RendererEntryNodeId \<rightharpoonup> string RendererEntryNode" where
  "exampleNodes =
     [1 \<mapsto> \<lparr>entry = ''R'', childrenIds = [2, 3]\<rparr>,
      2 \<mapsto> \<lparr>entry = ''A'', childrenIds = [4]\<rparr>,
      3 \<mapsto> \<lparr>entry = ''B'', childrenIds = []\<rparr>,
      4 \<mapsto> \<lparr>entry = ''A1'', childrenIds = []\<rparr>]"

definition exampleTree :: "string RendererTree" where
  "exampleTree = \<lparr>nodes = exampleNodes\<rparr>"

definition exampleThread :: "string RendererThread" where
  "exampleThread = \<lparr>entries = [''R'', ''A'', ''A1'', ''B''], tree = Some exampleTree\<rparr>"

definition exampleLookup :: "string \<rightharpoonup> string RendererEntryNode" where
  "exampleLookup =
     [''R'' \<mapsto> \<lparr>entry = ''R'', childrenIds = [2, 3]\<rparr>,
      ''A'' \<mapsto> \<lparr>entry = ''A'', childrenIds = [4]\<rparr>,
      ''B'' \<mapsto> \<lparr>entry = ''B'', childrenIds = []\<rparr>,
      ''A1'' \<mapsto> \<lparr>entry = ''A1'', childrenIds = []\<rparr>]"

text \<open>Three actions on these entries; no entry is \<open>Z\<close>.\<close>

definition collapseA :: "string UserTreeAction" where
  "collapseA = \<lparr>actionType = COLLAPSE_FUNCTION, actionEntry = ''A''\<rparr>"

definition mergeB :: "string UserTreeAction" where
  "mergeB = \<lparr>actionType = MERGE_FUNCTION, actionEntry = ''B''\<rparr>"

definition collapseZ :: "string UserTreeAction" where
  "collapseZ = \<lparr>actionType = COLLAPSE_FUNCTION, actionEntry = ''Z''\<rparr>"

definition treelessThread :: "string RendererThread" where
  "treelessThread = \<lparr>entries = [''R'', ''A'', ''A1'', ''B''], tree = None\<rparr>"

section \<open>Properties of the event order\<close>

lemma mergeLists_Nil [simp]: "mergeLists [] ys = ys"
  by (cases ys) simp_all

lemma comparator_le0_iff: "eventTimeComparator a b \<le> 0 \<longleftrightarrow> orderKey a \<le> orderKey b"
  by (auto simp: eventTimeComparator_def orderKey_def endTime_def durOrZero_def Let_def less_eq_prod_def)

lemma comparator_eq0_iff: "eventTimeComparator a b = 0 \<longleftrightarrow> orderKey a = orderKey b"
  by (auto simp: eventTimeComparator_def orderKey_def endTime_def durOrZero_def Let_def)

lemma comparator_eq1_iff: "eventTimeComparator a b = 1 \<longleftrightarrow> orderKey b < orderKey a"
  by (auto simp: eventTimeComparator_def orderKey_def endTime_def durOrZero_def Let_def less_prod_def)

lemma insertBy_insort_key:
  "insertBy eventTimeComparator x xs = insort_key orderKey x xs"
  by (induction xs) (simp_all add: comparator_le0_iff)

lemma arraySort_sort_key: "arraySort eventTimeComparator xs = sort_key orderKey xs"
  by (induction xs) (simp_all add: arraySort_def insertBy_insort_key)

lemma inOrder_sorted_key: "inOrder xs \<longleftrightarrow> sorted (map orderKey xs)"
  by (simp add: inOrder_def sorted_map comparator_le0_iff)

lemma mergeLoop_mergeLists:
  "(case mergeLoop a b i j r of (res, i', j') \<Rightarrow> res @ drop i' a @ drop j' b)
     = r @ mergeLists (drop i a) (drop j b)"
proof (induction a b i j r rule: mergeLoop.induct)
  case (1 a b i j r)
  show ?case
  proof (cases "i < length a \<and> j < length b")
    case False
    then show ?thesis
      by (subst mergeLoop.simps) auto
  next
    case True
    let ?c = "eventTimeComparator (a ! i) (b ! j)"
    from True have da: "a ! i # drop (Suc i) a = drop i a" and db: "b ! j # drop (Suc j) b = drop j b"
      by (simp_all add: Cons_nth_drop_Suc)
    have "mergeLists (a ! i # drop (Suc i) a) (b ! j # drop (Suc j) b)
        = (if ?c \<le> 0 then a ! i # mergeLists (drop (Suc i) a) (b ! j # drop (Suc j) b)
           else b ! j # mergeLists (a ! i # drop (Suc i) a) (drop (Suc j) b))"
      by simp
    then have ml: "mergeLists (drop i a) (drop j b)
        = (if ?c \<le> 0 then a ! i # mergeLists (drop (Suc i) a) (drop j b)
           else b ! j # mergeLists (drop i a) (drop (Suc j) b))"
      by (simp only: da db)
    consider "?c \<le> 0" "?c \<noteq> 1" | "\<not> ?c \<le> 0" "?c = 1"
      using eventTimeComparator_range [of "a ! i" "b ! j"] by auto
    then show ?thesis
    proof cases
      case 1
      with True "1.IH"(2) show ?thesis
        by (subst mergeLoop.simps) (simp add: ml)
    next
      case 2
      with True "1.IH"(3) show ?thesis
        by (subst mergeLoop.simps) (simp add: ml)
    qed
  qed
qed

lemma mergeEventsInOrder_mergeLists: "mergeEventsInOrder a b = mergeLists a b"
  using mergeLoop_mergeLists [of a b 0 0 "[]"] by (simp add: mergeEventsInOrder_def)

lemma mset_mergeLists: "mset (mergeLists xs ys) = mset xs + mset ys"
  by (induction xs ys rule: mergeLists.induct) simp_all

lemma set_mergeLists: "set (mergeLists xs ys) = set xs \<union> set ys"
  by (induction xs ys rule: mergeLists.induct) auto

lemma sorted_mergeLists:
  "sorted (map orderKey xs) \<Longrightarrow> sorted (map orderKey ys) \<Longrightarrow> sorted (map orderKey (mergeLists xs ys))"
  by (induction xs ys rule: mergeLists.induct)
     (auto simp: set_mergeLists comparator_le0_iff)

lemma stable_mergeLists:
  "sorted (map orderKey xs) \<Longrightarrow> sorted (map orderKey ys) \<Longrightarrow>
   filter (\<lambda>x. k = orderKey x) (mergeLists xs ys)
     = filter (\<lambda>x. k = orderKey x) xs @ filter (\<lambda>x. k = orderKey x) ys"
proof (induction xs ys rule: mergeLists.induct)
  case (1 x xs y ys)
  define P where "P = (\<lambda>x::'a TimeSpan_scheme. k = orderKey x)"
  have sx: "sorted (map orderKey xs)" and sy: "sorted (map orderKey ys)"
    using "1.prems" by simp_all
  show ?case
  proof (cases "eventTimeComparator x y \<le> 0")
    case True
    then have "filter P (mergeLists xs (y # ys)) = filter P xs @ filter P (y # ys)"
      using "1.IH"(1) sx "1.prems"(2) unfolding P_def by blast
    then show ?thesis using True unfolding P_def [symmetric] by simp
  next
    case False
    then have lt: "orderKey y < orderKey x" by (simp add: comparator_le0_iff)
    have ih: "filter P (mergeLists (x # xs) ys) = filter P (x # xs) @ filter P ys"
      using "1.IH"(2) False sy "1.prems"(1) unfolding P_def by blast
    have "filter P (x # xs) = []" if "P y"
      using that lt "1.prems"(1) unfolding P_def by (auto simp: filter_empty_conv)
    then show ?thesis using False ih unfolding P_def [symmetric] by simp
  qed
qed simp_all

lemma mergeLists_sort:
  assumes "sorted (map orderKey xs)" "sorted (map orderKey ys)"
  shows "mergeLists xs ys = sort_key orderKey (xs @ ys)"
proof (rule properties_for_sort_key [symmetric])
  show "mset (mergeLists xs ys) = mset (xs @ ys)" by (simp add: mset_mergeLists)
  show "sorted (map orderKey (mergeLists xs ys))" using assms by (rule sorted_mergeLists)
  show "\<And>k. k \<in> set (mergeLists xs ys) \<Longrightarrow>
     filter (\<lambda>x. orderKey k = orderKey x) (mergeLists xs ys) = filter (\<lambda>x. orderKey k = orderKey x) (xs @ ys)"
    using assms by (simp add: stable_mergeLists)
qed

lemma comparator_minus1_iff: "eventTimeComparator a b = - 1 \<longleftrightarrow> orderKey a < orderKey b"
  by (auto simp: eventTimeComparator_def orderKey_def endTime_def durOrZero_def Let_def less_prod_def)

lemma sorted_arraySort: "inOrder (arraySort eventTimeComparator xs)"
  by (simp add: inOrder_sorted_key arraySort_sort_key)

lemma mset_arraySort: "mset (arraySort eventTimeComparator xs) = mset xs"
  by (simp add: arraySort_sort_key)

lemma arraySort_inOrder: "inOrder xs \<Longrightarrow> arraySort eventTimeComparator xs = xs"
  by (simp add: arraySort_sort_key inOrder_sorted_key sort_key_id_if_sorted)

lemmas order_run_simps =
  sortTraceEventsInPlace_def arraySort_def eventTimeComparator_def durOrZero_def inOrder_def
  exampleEvent_def Let_def

text \<open>
  C3. \<open>sortTraceEventsInPlace\<close> returns the events it was given, ordered by start time
  ascending and, at equal start times, by end time descending, the end time being
  \<open>ts + dur\<close> with an absent \<open>dur\<close> read as \<open>0\<close>. The comparator answers \<open>-1\<close>, \<open>0\<close>
  or \<open>1\<close> accordingly, and \<open>0\<close> exactly for equal start and equal end.
\<close>

theorem sortTraceEventsInPlace_order:
  "sorted_wrt (\<lambda>a b. ts a < ts b \<or> (ts a = ts b \<and> endTime b \<le> endTime a))
       (sortTraceEventsInPlace events)
   \<and> mset (sortTraceEventsInPlace events) = mset events
   \<and> (eventTimeComparator a b = - 1 \<longleftrightarrow> ts a < ts b \<or> (ts a = ts b \<and> endTime b < endTime a))
   \<and> (eventTimeComparator a b = 0 \<longleftrightarrow> ts a = ts b \<and> endTime a = endTime b)
   \<and> (eventTimeComparator a b = 1 \<longleftrightarrow> ts b < ts a \<or> (ts a = ts b \<and> endTime a < endTime b))
   \<and> endTime a = ts a + (case dur a of None \<Rightarrow> 0 | Some d \<Rightarrow> d)"
proof (intro conjI)
  have eq: "(\<lambda>a b :: 'a TimeSpan_scheme. ts a < ts b \<or> (ts a = ts b \<and> endTime b \<le> endTime a))
      = (\<lambda>a b. eventTimeComparator a b \<le> 0)"
    by (intro ext) (auto simp: comparator_le0_iff orderKey_def less_eq_prod_def)
  show "sorted_wrt (\<lambda>a b. ts a < ts b \<or> (ts a = ts b \<and> endTime b \<le> endTime a))
       (sortTraceEventsInPlace events)"
    unfolding eq sortTraceEventsInPlace_def
    using sorted_arraySort [of events] by (simp only: inOrder_def)
  show "mset (sortTraceEventsInPlace events) = mset events"
    by (simp add: sortTraceEventsInPlace_def mset_arraySort)
  show "eventTimeComparator a b = - 1 \<longleftrightarrow> ts a < ts b \<or> (ts a = ts b \<and> endTime b < endTime a)"
    by (auto simp: comparator_minus1_iff orderKey_def less_prod_def)
  show "eventTimeComparator a b = 0 \<longleftrightarrow> ts a = ts b \<and> endTime a = endTime b"
    by (auto simp: comparator_eq0_iff orderKey_def)
  show "eventTimeComparator a b = 1 \<longleftrightarrow> ts b < ts a \<or> (ts a = ts b \<and> endTime a < endTime b)"
    by (auto simp: comparator_eq1_iff orderKey_def less_prod_def)
  show "endTime a = ts a + (case dur a of None \<Rightarrow> 0 | Some d \<Rightarrow> d)"
    by (simp add: endTime_def)
qed

theorem sortTraceEventsInPlace_order_witness:
  "sortTraceEventsInPlace
     [exampleEvent ''late'' COMPLETE 5 None None, exampleEvent ''short'' COMPLETE 1 (Some 2) None,
      exampleEvent ''long'' COMPLETE 1 (Some 7) None, exampleEvent ''instant'' COMPLETE 1 None None]
   = [exampleEvent ''long'' COMPLETE 1 (Some 7) None, exampleEvent ''short'' COMPLETE 1 (Some 2) None,
      exampleEvent ''instant'' COMPLETE 1 None None, exampleEvent ''late'' COMPLETE 5 None None]
   \<and> sorted_wrt (\<lambda>a b. ts a < ts b \<or> (ts a = ts b \<and> endTime b \<le> endTime a))
       (sortTraceEventsInPlace
         [exampleEvent ''late'' COMPLETE 5 None None, exampleEvent ''short'' COMPLETE 1 (Some 2) None,
          exampleEvent ''long'' COMPLETE 1 (Some 7) None, exampleEvent ''instant'' COMPLETE 1 None None])"
proof -
  have "sortTraceEventsInPlace
     [exampleEvent ''late'' COMPLETE 5 None None, exampleEvent ''short'' COMPLETE 1 (Some 2) None,
      exampleEvent ''long'' COMPLETE 1 (Some 7) None, exampleEvent ''instant'' COMPLETE 1 None None]
   = [exampleEvent ''long'' COMPLETE 1 (Some 7) None, exampleEvent ''short'' COMPLETE 1 (Some 2) None,
      exampleEvent ''instant'' COMPLETE 1 None None, exampleEvent ''late'' COMPLETE 5 None None]"
    by (simp add: order_run_simps)
  then show ?thesis
    using sortTraceEventsInPlace_order
      [of "[exampleEvent ''late'' COMPLETE 5 None None, exampleEvent ''short'' COMPLETE 1 (Some 2) None,
            exampleEvent ''long'' COMPLETE 1 (Some 7) None, exampleEvent ''instant'' COMPLETE 1 None None]"]
    by blast
qed

text \<open>
  C4. Sorting a collection that is already in canonical order returns the same sequence;
  hence sorting twice is sorting once.
\<close>

theorem sortTraceEventsInPlace_idempotent:
  "(inOrder events \<longrightarrow> sortTraceEventsInPlace events = events)
   \<and> sortTraceEventsInPlace (sortTraceEventsInPlace events) = sortTraceEventsInPlace events"
  using arraySort_inOrder [of events] arraySort_inOrder [OF sorted_arraySort, of events]
  by (simp add: sortTraceEventsInPlace_def)

theorem sortTraceEventsInPlace_idempotent_witness:
  "inOrder [exampleEvent ''first'' COMPLETE 1 (Some 7) None, exampleEvent ''second'' COMPLETE 1 (Some 7) None,
            exampleEvent ''third'' COMPLETE 4 None None]
   \<and> sortTraceEventsInPlace
       [exampleEvent ''first'' COMPLETE 1 (Some 7) None, exampleEvent ''second'' COMPLETE 1 (Some 7) None,
        exampleEvent ''third'' COMPLETE 4 None None]
     = [exampleEvent ''first'' COMPLETE 1 (Some 7) None, exampleEvent ''second'' COMPLETE 1 (Some 7) None,
        exampleEvent ''third'' COMPLETE 4 None None]"
proof -
  have h: "inOrder [exampleEvent ''first'' COMPLETE 1 (Some 7) None, exampleEvent ''second'' COMPLETE 1 (Some 7) None,
            exampleEvent ''third'' COMPLETE 4 None None]"
    by (simp add: order_run_simps)
  with sortTraceEventsInPlace_idempotent
      [of "[exampleEvent ''first'' COMPLETE 1 (Some 7) None, exampleEvent ''second'' COMPLETE 1 (Some 7) None,
            exampleEvent ''third'' COMPLETE 4 None None]"]
  show ?thesis by blast
qed

text \<open>
  C2. For two collections in canonical order, \<open>mergeEventsInOrder\<close> returns a permutation
  of their concatenation that is in canonical order; it is the stable sort of the
  concatenation, and elements that compare equal keep their order with those of the
  first collection before those of the second.
\<close>

theorem mergeEventsInOrder_sorted_stable:
  assumes "inOrder a" and "inOrder b"
  shows "mset (mergeEventsInOrder a b) = mset (a @ b)
       \<and> inOrder (mergeEventsInOrder a b)
       \<and> mergeEventsInOrder a b = arraySort eventTimeComparator (a @ b)
       \<and> filter (\<lambda>x. eventTimeComparator x e = 0) (mergeEventsInOrder a b)
           = filter (\<lambda>x. eventTimeComparator x e = 0) a @ filter (\<lambda>x. eventTimeComparator x e = 0) b"
proof (intro conjI)
  have sa: "sorted (map orderKey a)" and sb: "sorted (map orderKey b)"
    using assms by (simp_all add: inOrder_sorted_key)
  have eq: "(\<lambda>x. eventTimeComparator x e = 0) = (\<lambda>x. orderKey e = orderKey x)"
    by (rule ext) (auto simp only: comparator_eq0_iff)
  show "filter (\<lambda>x. eventTimeComparator x e = 0) (mergeEventsInOrder a b)
     = filter (\<lambda>x. eventTimeComparator x e = 0) a @ filter (\<lambda>x. eventTimeComparator x e = 0) b"
    unfolding eq mergeEventsInOrder_mergeLists using sa sb by (rule stable_mergeLists)
  show "mset (mergeEventsInOrder a b) = mset (a @ b)"
    by (simp add: mergeEventsInOrder_mergeLists mset_mergeLists)
  show "inOrder (mergeEventsInOrder a b)"
    unfolding mergeEventsInOrder_mergeLists inOrder_sorted_key using sa sb by (rule sorted_mergeLists)
  show "mergeEventsInOrder a b = arraySort eventTimeComparator (a @ b)"
    unfolding mergeEventsInOrder_mergeLists arraySort_sort_key using sa sb by (rule mergeLists_sort)
qed

theorem mergeEventsInOrder_sorted_stable_witness:
  "mergeEventsInOrder
     [exampleEvent ''a1'' COMPLETE 1 (Some 5) None, exampleEvent ''a2'' COMPLETE 3 None None]
     [exampleEvent ''b1'' COMPLETE 1 (Some 5) None, exampleEvent ''b2'' COMPLETE 2 (Some 1) None]
   = [exampleEvent ''a1'' COMPLETE 1 (Some 5) None, exampleEvent ''b1'' COMPLETE 1 (Some 5) None,
      exampleEvent ''b2'' COMPLETE 2 (Some 1) None, exampleEvent ''a2'' COMPLETE 3 None None]
   \<and> arraySort eventTimeComparator
       ([exampleEvent ''a1'' COMPLETE 1 (Some 5) None, exampleEvent ''a2'' COMPLETE 3 None None]
        @ [exampleEvent ''b1'' COMPLETE 1 (Some 5) None, exampleEvent ''b2'' COMPLETE 2 (Some 1) None])
     = [exampleEvent ''a1'' COMPLETE 1 (Some 5) None, exampleEvent ''b1'' COMPLETE 1 (Some 5) None,
        exampleEvent ''b2'' COMPLETE 2 (Some 1) None, exampleEvent ''a2'' COMPLETE 3 None None]"
proof -
  have a: "inOrder [exampleEvent ''a1'' COMPLETE 1 (Some 5) None, exampleEvent ''a2'' COMPLETE 3 None None]"
    by (simp add: order_run_simps)
  have b: "inOrder [exampleEvent ''b1'' COMPLETE 1 (Some 5) None, exampleEvent ''b2'' COMPLETE 2 (Some 1) None]"
    by (simp add: order_run_simps)
  have m: "mergeEventsInOrder
     [exampleEvent ''a1'' COMPLETE 1 (Some 5) None, exampleEvent ''a2'' COMPLETE 3 None None]
     [exampleEvent ''b1'' COMPLETE 1 (Some 5) None, exampleEvent ''b2'' COMPLETE 2 (Some 1) None]
   = [exampleEvent ''a1'' COMPLETE 1 (Some 5) None, exampleEvent ''b1'' COMPLETE 1 (Some 5) None,
      exampleEvent ''b2'' COMPLETE 2 (Some 1) None, exampleEvent ''a2'' COMPLETE 3 None None]"
    by (simp add: mergeEventsInOrder_mergeLists order_run_simps)
  from mergeEventsInOrder_sorted_stable [OF a b, of "exampleEvent ''a1'' COMPLETE 1 (Some 5) None"]
  have "mergeEventsInOrder
     [exampleEvent ''a1'' COMPLETE 1 (Some 5) None, exampleEvent ''a2'' COMPLETE 3 None None]
     [exampleEvent ''b1'' COMPLETE 1 (Some 5) None, exampleEvent ''b2'' COMPLETE 2 (Some 1) None]
   = arraySort eventTimeComparator
       ([exampleEvent ''a1'' COMPLETE 1 (Some 5) None, exampleEvent ''a2'' COMPLETE 3 None None]
        @ [exampleEvent ''b1'' COMPLETE 1 (Some 5) None, exampleEvent ''b2'' COMPLETE 2 (Some 1) None])"
    by (elim conjE)
  with m show ?thesis by (simp only:)
qed

section \<open>Properties of the pairing\<close>

lemma matchStep_no_id: "eventKey x = None \<Longrightarrow> matchStep m x = m"
  by (simp add: matchStep_def eventKey_def split: option.splits)

lemma map_of_matchStep:
  assumes "eventKey x = Some k"
  shows "map_of (matchStep m x) =
     (map_of m)(k \<mapsto>
        (let v = (case map_of m k of None \<Rightarrow> \<lparr>pairBegin = None, pairEnd = None\<rparr> | Some v \<Rightarrow> v) in
         if ph x = ASYNC_NESTABLE_START then v\<lparr>pairBegin := Some x\<rparr>
         else if ph x = ASYNC_NESTABLE_END then v\<lparr>pairEnd := Some x\<rparr>
         else v))"
proof -
  from assms obtain i where i: "extractId x = Some i" and k: "k = cat x @ '':'' @ i @ '':'' @ name x"
    by (auto simp: eventKey_def split: option.splits)
  show ?thesis
  proof (cases "map_of m k")
    case None
    with i k show ?thesis
      by (auto simp: matchStep_def getWithDefault_def Let_def update_conv')
  next
    case (Some v)
    then have "(map_of m)(k \<mapsto> v) = map_of m" by (rule map_upd_triv)
    with Some i k show ?thesis
      by (auto simp: matchStep_def getWithDefault_def Let_def update_conv')
  qed
qed

lemma distinct_matchStep: "distinct (map fst m) \<Longrightarrow> distinct (map fst (matchStep m x))"
  by (auto simp: matchStep_def getWithDefault_def Let_def distinct_update split: option.splits)

lemma match_snoc:
  "matchBeginningAndEndEvents (events @ [x]) = matchStep (matchBeginningAndEndEvents events) x"
  by (simp add: matchBeginningAndEndEvents_def)

lemma distinct_match: "distinct (map fst (matchBeginningAndEndEvents events))"
proof (induction events rule: rev_induct)
  case Nil
  show ?case by (simp add: matchBeginningAndEndEvents_def)
next
  case (snoc x events)
  then show ?case by (simp only: match_snoc distinct_matchStep)
qed

lemma withKey_snoc:
  "withKey k (events @ [x]) = withKey k events @ (if eventKey x = Some k then [x] else [])"
  by (simp add: withKey_def)

lemma lastBegin_snoc:
  "lastBegin k (events @ [x]) =
     (if eventKey x = Some k \<and> ph x = ASYNC_NESTABLE_START then Some x else lastBegin k events)"
  by (auto simp: lastBegin_def withKey_def lastOf_def)

lemma lastEnd_snoc:
  "lastEnd k (events @ [x]) =
     (if eventKey x = Some k \<and> ph x = ASYNC_NESTABLE_END then Some x else lastEnd k events)"
  by (auto simp: lastEnd_def withKey_def lastOf_def)

lemma last_none_without_key:
  "withKey k events = [] \<Longrightarrow> lastBegin k events = None \<and> lastEnd k events = None"
  by (simp add: lastBegin_def lastEnd_def lastOf_def)

lemma match_lookup:
  "map_of (matchBeginningAndEndEvents events) k =
     (if withKey k events = [] then None
      else Some \<lparr>pairBegin = lastBegin k events, pairEnd = lastEnd k events\<rparr>)"
proof (induction events rule: rev_induct)
  case Nil
  show ?case by (simp add: matchBeginningAndEndEvents_def withKey_def)
next
  case (snoc x events)
  show ?case
  proof (cases "eventKey x")
    case None
    with snoc show ?thesis
      by (simp add: match_snoc matchStep_no_id withKey_snoc lastBegin_snoc lastEnd_snoc)
  next
    case (Some k')
    show ?thesis
    proof (cases "k' = k")
      case False
      with Some snoc show ?thesis
        by (simp add: match_snoc map_of_matchStep withKey_snoc lastBegin_snoc lastEnd_snoc)
    next
      case True
      with Some have kx: "eventKey x = Some k" by simp
      show ?thesis
      proof (cases "withKey k events = []")
        case True
        with snoc last_none_without_key [OF True] kx show ?thesis
          unfolding match_snoc map_of_matchStep [OF kx]
          by (simp add: withKey_snoc lastBegin_snoc lastEnd_snoc Let_def)
      next
        case False
        with snoc kx show ?thesis
          unfolding match_snoc map_of_matchStep [OF kx]
          by (simp add: withKey_snoc lastBegin_snoc lastEnd_snoc Let_def)
      qed
    qed
  qed
qed

lemma match_ignores_no_id:
  "matchBeginningAndEndEvents (filter (\<lambda>e. extractId e \<noteq> None) events) = matchBeginningAndEndEvents events"
proof (induction events rule: rev_induct)
  case Nil
  show ?case by simp
next
  case (snoc x events)
  show ?case
  proof (cases "extractId x")
    case None
    then have "eventKey x = None" by (simp add: eventKey_def)
    with None snoc show ?thesis by (simp add: match_snoc matchStep_no_id)
  next
    case (Some i)
    with snoc show ?thesis by (simp add: match_snoc)
  qed
qed

lemma syntheticStep_synthOf: "syntheticStep acc entry0 = acc @ synthOf entry0"
  by (auto simp: syntheticStep_def synthOf_def pairOutput_def syntheticEvent_def Let_def
      split: prod.splits option.splits)

lemma foldl_syntheticStep: "foldl syntheticStep acc m = acc @ concat (map synthOf m)"
  by (induction m arbitrary: acc) (simp_all add: syntheticStep_synthOf)

lemma synthOf_id: "s \<in> set (synthOf (i, p)) \<Longrightarrow> id_str s = Some i"
  by (auto simp: synthOf_def pairOutput_def syntheticEvent_def split: option.splits if_splits)

lemma filter_synthOf:
  "filter (\<lambda>s. id_str s = Some k) (synthOf (i, p)) = (if i = k then synthOf (i, p) else [])"
  using synthOf_id [of _ i p] by (auto simp: filter_empty_conv filter_id_conv)

lemma filter_concat_synthOf:
  "distinct (map fst m) \<Longrightarrow>
   filter (\<lambda>s. id_str s = Some k) (concat (map synthOf m))
     = (case map_of m k of None \<Rightarrow> [] | Some p \<Rightarrow> synthOf (k, p))"
proof (induction m)
  case Nil
  show ?case by simp
next
  case (Cons a m)
  obtain i p where a: "a = (i, p)" by (cases a)
  show ?case
  proof (cases "i = k")
    case True
    with Cons.prems a have "map_of m k = None" by (auto simp: map_of_eq_None_iff)
    with Cons a True show ?thesis by (simp add: filter_synthOf)
  next
    case False
    with Cons a show ?thesis by (simp add: filter_synthOf)
  qed
qed

lemma insertBy_ts: "insertBy (\<lambda>a b. ts a - ts b) x xs = insort_key ts x xs"
  by (induction xs) simp_all

lemma arraySort_ts: "arraySort (\<lambda>a b. ts a - ts b) xs = sort_key ts xs"
  by (induction xs) (simp_all add: arraySort_def insertBy_ts)

lemma sort_key_short: "length xs \<le> 1 \<Longrightarrow> sort_key f xs = xs"
  by (cases xs) auto

lemma created_for_key:
  "filter (\<lambda>s. id_str s = Some k) (createMatchedSortedSyntheticEvents events)
     = pairOutput k (lastBegin k events) (lastEnd k events)"
proof -
  let ?m = "matchBeginningAndEndEvents events"
  have "filter (\<lambda>s. id_str s = Some k) (createMatchedSortedSyntheticEvents events)
      = sort_key ts (filter (\<lambda>s. id_str s = Some k) (concat (map synthOf ?m)))"
    by (simp add: createMatchedSortedSyntheticEvents_def createSortedSyntheticEvents_def
        arraySort_ts foldl_syntheticStep filter_sort)
  also have "filter (\<lambda>s. id_str s = Some k) (concat (map synthOf ?m))
      = (case map_of ?m k of None \<Rightarrow> [] | Some p \<Rightarrow> synthOf (k, p))"
    by (rule filter_concat_synthOf) (rule distinct_match)
  also have "\<dots> = pairOutput k (lastBegin k events) (lastEnd k events)"
    by (simp add: match_lookup synthOf_def lastBegin_def lastEnd_def lastOf_def pairOutput_def)
  also have "sort_key ts \<dots> = \<dots>"
    by (rule sort_key_short) (simp add: pairOutput_def split: option.splits)
  finally show ?thesis .
qed

lemma created_ids:
  assumes "s \<in> set (createMatchedSortedSyntheticEvents events)"
  shows "\<exists>k. id_str s = Some k \<and> withKey k events \<noteq> []"
proof -
  let ?m = "matchBeginningAndEndEvents events"
  from assms have "s \<in> set (concat (map synthOf ?m))"
    by (simp add: createMatchedSortedSyntheticEvents_def createSortedSyntheticEvents_def
        arraySort_ts foldl_syntheticStep)
  then obtain i p where ip: "(i, p) \<in> set ?m" and s: "s \<in> set (synthOf (i, p))" by auto
  from ip distinct_match [of events] have "map_of ?m i = Some p" by simp
  then have "withKey i events \<noteq> []" by (simp add: match_lookup split: if_splits)
  with synthOf_id [OF s] show ?thesis by blast
qed

lemma created_single_key:
  assumes "\<forall>x\<in>set events. eventKey x = Some k \<or> eventKey x = None"
  shows "createMatchedSortedSyntheticEvents events = pairOutput k (lastBegin k events) (lastEnd k events)"
proof -
  have "id_str s = Some k" if "s \<in> set (createMatchedSortedSyntheticEvents events)" for s
  proof -
    from created_ids [OF that] obtain k' where k': "id_str s = Some k'" "withKey k' events \<noteq> []" by blast
    from k'(2) obtain x where "x \<in> set events" "eventKey x = Some k'"
      by (auto simp: withKey_def filter_empty_conv)
    with assms k'(1) show ?thesis by auto
  qed
  then have "filter (\<lambda>s. id_str s = Some k) (createMatchedSortedSyntheticEvents events)
      = createMatchedSortedSyntheticEvents events"
    by (simp add: filter_id_conv)
  with created_for_key [of k events] show ?thesis by simp
qed

lemmas pairing_run_simps =
  withKey_def eventKey_def extractId_def lastBegin_def lastEnd_def lastOf_def pairOutput_def
  exampleEvent_def

text \<open>
  C5. A begin event \<open>b\<close> and an end event \<open>e\<close> with the same category, name and
  identifier give exactly one synthetic event, with \<open>ts = ts b\<close> and \<open>dur = ts e - ts b\<close>,
  when \<open>e\<close> is not before \<open>b\<close>, and nothing when it is; a begin alone or an end alone
  gives nothing. This holds of the two events as the whole input, in either order, and
  of their key within any input that has no other event of that key. The functions
  are total: no input raises an error.
\<close>

theorem pairing_begin_end:
  assumes "ph b = ASYNC_NESTABLE_START" and "ph e = ASYNC_NESTABLE_END"
    and "extractId b = Some i" and "extractId e = Some i"
    and "cat b = cat e" and "name b = name e"
    and "k = cat b @ '':'' @ i @ '':'' @ name b"
  shows "createMatchedSortedSyntheticEvents [b, e] = (if ts b \<le> ts e then [syntheticEvent k b e] else [])
     \<and> createMatchedSortedSyntheticEvents [e, b] = (if ts b \<le> ts e then [syntheticEvent k b e] else [])
     \<and> createMatchedSortedSyntheticEvents [b] = []
     \<and> createMatchedSortedSyntheticEvents [e] = []
     \<and> ts (syntheticEvent k b e) = ts b
     \<and> dur (syntheticEvent k b e) = Some (ts e - ts b)
     \<and> (withKey k events = [b, e] \<or> withKey k events = [e, b] \<longrightarrow>
          filter (\<lambda>s. id_str s = Some k) (createMatchedSortedSyntheticEvents events)
            = (if ts b \<le> ts e then [syntheticEvent k b e] else []))
     \<and> (withKey k events = [b] \<or> withKey k events = [e] \<longrightarrow>
          filter (\<lambda>s. id_str s = Some k) (createMatchedSortedSyntheticEvents events) = [])"
proof -
  from assms have kb: "eventKey b = Some k" and ke: "eventKey e = Some k"
    by (simp_all add: eventKey_def)
  from assms(1,2) have ne: "ph b \<noteq> ASYNC_NESTABLE_END" "ph e \<noteq> ASYNC_NESTABLE_START" by simp_all
  have 1: "createMatchedSortedSyntheticEvents [b, e] = (if ts b \<le> ts e then [syntheticEvent k b e] else [])"
    using created_single_key [of "[b, e]" k] kb ke assms(1,2) ne
    by (auto simp: lastBegin_def lastEnd_def withKey_def lastOf_def pairOutput_def)
  have 2: "createMatchedSortedSyntheticEvents [e, b] = (if ts b \<le> ts e then [syntheticEvent k b e] else [])"
    using created_single_key [of "[e, b]" k] kb ke assms(1,2) ne
    by (auto simp: lastBegin_def lastEnd_def withKey_def lastOf_def pairOutput_def)
  have 3: "createMatchedSortedSyntheticEvents [b] = []"
    using created_single_key [of "[b]" k] kb ne
    by (auto simp: lastBegin_def lastEnd_def withKey_def lastOf_def pairOutput_def split: option.splits)
  have 4: "createMatchedSortedSyntheticEvents [e] = []"
    using created_single_key [of "[e]" k] ke ne
    by (auto simp: lastBegin_def lastEnd_def withKey_def lastOf_def pairOutput_def split: option.splits)
  have 5: "ts (syntheticEvent k b e) = ts b" "dur (syntheticEvent k b e) = Some (ts e - ts b)"
    by (simp_all add: syntheticEvent_def)
  have 6: "filter (\<lambda>s. id_str s = Some k) (createMatchedSortedSyntheticEvents events)
            = (if ts b \<le> ts e then [syntheticEvent k b e] else [])"
    if "withKey k events = [b, e] \<or> withKey k events = [e, b]"
    using that assms(1,2) ne
    by (auto simp: created_for_key lastBegin_def lastEnd_def lastOf_def pairOutput_def)
  have 7: "filter (\<lambda>s. id_str s = Some k) (createMatchedSortedSyntheticEvents events) = []"
    if "withKey k events = [b] \<or> withKey k events = [e]"
    using that assms(1,2) ne
    by (auto simp: created_for_key lastBegin_def lastEnd_def lastOf_def pairOutput_def split: option.splits)
  from 1 2 3 4 5 6 7 show ?thesis by blast
qed

theorem pairing_begin_end_witness:
  "createMatchedSortedSyntheticEvents
     [exampleEvent ''fetch'' ASYNC_NESTABLE_START 10 None (Some ''0x1''),
      exampleEvent ''fetch'' ASYNC_NESTABLE_END 25 None (Some ''0x1'')]
   = [syntheticEvent ''blink.user_timing:0x1:fetch''
        (exampleEvent ''fetch'' ASYNC_NESTABLE_START 10 None (Some ''0x1''))
        (exampleEvent ''fetch'' ASYNC_NESTABLE_END 25 None (Some ''0x1''))]
   \<and> dur (syntheticEvent ''blink.user_timing:0x1:fetch''
        (exampleEvent ''fetch'' ASYNC_NESTABLE_START 10 None (Some ''0x1''))
        (exampleEvent ''fetch'' ASYNC_NESTABLE_END 25 None (Some ''0x1''))) = Some 15
   \<and> createMatchedSortedSyntheticEvents
       [exampleEvent ''fetch'' ASYNC_NESTABLE_START 10 None (Some ''0x1'')] = []"
  using pairing_begin_end
    [of "exampleEvent ''fetch'' ASYNC_NESTABLE_START 10 None (Some ''0x1'')"
        "exampleEvent ''fetch'' ASYNC_NESTABLE_END 25 None (Some ''0x1'')"
        "''0x1''" "''blink.user_timing:0x1:fetch''" "[]"]
  by (simp add: exampleEvent_def extractId_def)

text \<open>
  C6. The map built by \<open>matchBeginningAndEndEvents\<close> has one entry per grouping key,
  holding the last begin event and the last end event of that key; events without an
  identifier change nothing; and what is emitted for a key is built from that last
  begin and that last end.
\<close>

theorem matching_last_write_wins:
  "distinct (map fst (matchBeginningAndEndEvents events))
   \<and> map_of (matchBeginningAndEndEvents events) k =
       (if withKey k events = [] then None
        else Some \<lparr>pairBegin = lastBegin k events, pairEnd = lastEnd k events\<rparr>)
   \<and> matchBeginningAndEndEvents (filter (\<lambda>e. extractId e \<noteq> None) events)
       = matchBeginningAndEndEvents events
   \<and> filter (\<lambda>s. id_str s = Some k) (createMatchedSortedSyntheticEvents events)
       = (case lastBegin k events of
            None \<Rightarrow> []
          | Some b \<Rightarrow>
              (case lastEnd k events of
                 None \<Rightarrow> []
               | Some e \<Rightarrow> if ts e < ts b then [] else [syntheticEvent k b e]))"
  using distinct_match [of events] match_lookup [of events k] match_ignores_no_id [of events]
    created_for_key [of k events]
  by (simp add: pairOutput_def)

theorem matching_last_write_wins_witness:
  "map_of (matchBeginningAndEndEvents
       [exampleEvent ''fetch'' ASYNC_NESTABLE_START 5 None (Some ''0x1''),
        exampleEvent ''fetch'' ASYNC_NESTABLE_END 20 None (Some ''0x1''),
        exampleEvent ''fetch'' ASYNC_NESTABLE_START 10 None (Some ''0x1''),
        exampleEvent ''fetch'' ASYNC_NESTABLE_END 30 None None,
        exampleEvent ''fetch'' ASYNC_NESTABLE_END 25 None (Some ''0x1'')])
     ''blink.user_timing:0x1:fetch''
   = Some \<lparr>pairBegin = Some (exampleEvent ''fetch'' ASYNC_NESTABLE_START 10 None (Some ''0x1'')),
            pairEnd = Some (exampleEvent ''fetch'' ASYNC_NESTABLE_END 25 None (Some ''0x1''))\<rparr>
   \<and> filter (\<lambda>s. id_str s = Some ''blink.user_timing:0x1:fetch'')
       (createMatchedSortedSyntheticEvents
         [exampleEvent ''fetch'' ASYNC_NESTABLE_START 5 None (Some ''0x1''),
          exampleEvent ''fetch'' ASYNC_NESTABLE_END 20 None (Some ''0x1''),
          exampleEvent ''fetch'' ASYNC_NESTABLE_START 10 None (Some ''0x1''),
          exampleEvent ''fetch'' ASYNC_NESTABLE_END 30 None None,
          exampleEvent ''fetch'' ASYNC_NESTABLE_END 25 None (Some ''0x1'')])
     = [syntheticEvent ''blink.user_timing:0x1:fetch''
          (exampleEvent ''fetch'' ASYNC_NESTABLE_START 10 None (Some ''0x1''))
          (exampleEvent ''fetch'' ASYNC_NESTABLE_END 25 None (Some ''0x1''))]"
  using matching_last_write_wins
    [of "[exampleEvent ''fetch'' ASYNC_NESTABLE_START 5 None (Some ''0x1''),
          exampleEvent ''fetch'' ASYNC_NESTABLE_END 20 None (Some ''0x1''),
          exampleEvent ''fetch'' ASYNC_NESTABLE_START 10 None (Some ''0x1''),
          exampleEvent ''fetch'' ASYNC_NESTABLE_END 30 None None,
          exampleEvent ''fetch'' ASYNC_NESTABLE_END 25 None (Some ''0x1'')]"
        "''blink.user_timing:0x1:fetch''"]
  by (simp add: pairing_run_simps)

section \<open>Properties of the tree visibility engine\<close>

subsection \<open>Reached nodes\<close>

lemma reachNodes_mono: "A \<subseteq> B \<Longrightarrow> reachNodes t A \<subseteq> reachNodes t B"
proof
  fix n assume "A \<subseteq> B" and "n \<in> reachNodes t A"
  from this(2) this(1) show "n \<in> reachNodes t B"
    by (induction rule: reachNodes.induct) (auto intro: reachNodes.intros)
qed

lemma reachNodes_Un: "reachNodes t (A \<union> B) = reachNodes t A \<union> reachNodes t B"
proof
  show "reachNodes t (A \<union> B) \<subseteq> reachNodes t A \<union> reachNodes t B"
  proof
    fix n assume "n \<in> reachNodes t (A \<union> B)"
    then show "n \<in> reachNodes t A \<union> reachNodes t B"
      by (induction rule: reachNodes.induct) (auto intro: reachNodes.intros)
  qed
  show "reachNodes t A \<union> reachNodes t B \<subseteq> reachNodes t (A \<union> B)"
    using reachNodes_mono [of A "A \<union> B" t] reachNodes_mono [of B "A \<union> B" t] by auto
qed

lemma reachNodes_empty [simp]: "reachNodes t {} = {}"
proof -
  have "n \<in> reachNodes t {} \<Longrightarrow> False" for n
    by (induction rule: reachNodes.induct) auto
  then show ?thesis by auto
qed

lemma reachNodes_absent:
  assumes "nodes t i = None"
  shows "reachNodes t {i} = {}"
proof -
  have "n \<in> reachNodes t {i} \<Longrightarrow> False" for n
    by (induction rule: reachNodes.induct) (use assms in auto)
  then show ?thesis by auto
qed

lemma reachNodes_present:
  assumes "nodes t i = Some n"
  shows "reachNodes t {i} = insert n (reachNodes t (set (childrenIds n)))"
proof
  show "reachNodes t {i} \<subseteq> insert n (reachNodes t (set (childrenIds n)))"
  proof
    fix m assume "m \<in> reachNodes t {i}"
    then show "m \<in> insert n (reachNodes t (set (childrenIds n)))"
      by (induction rule: reachNodes.induct) (use assms in \<open>auto intro: reachNodes.intros\<close>)
  qed
  have n: "n \<in> reachNodes t {i}" using assms by (auto intro: reachNodes.start)
  have "m \<in> reachNodes t (set (childrenIds n)) \<Longrightarrow> m \<in> reachNodes t {i}" for m
    by (induction rule: reachNodes.induct) (use n in \<open>auto intro: reachNodes.step\<close>)
  with n show "insert n (reachNodes t (set (childrenIds n))) \<subseteq> reachNodes t {i}" by auto
qed

lemma reachNodes_Cons_absent:
  "nodes t i = None \<Longrightarrow> reachNodes t (set (i # rest)) = reachNodes t (set rest)"
  using reachNodes_Un [of t "{i}" "set rest"] by (simp add: reachNodes_absent)

lemma reachNodes_Cons_present:
  "nodes t i = Some n \<Longrightarrow>
   reachNodes t (set (i # rest)) = insert n (reachNodes t (set (rest @ childrenIds n)))"
  using reachNodes_Un [of t "{i}" "set rest"] reachNodes_Un [of t "set rest" "set (childrenIds n)"]
  by (auto simp: reachNodes_present)

subsection \<open>The traversal\<close>

lemma findAllAncestorsLoop_Nil: "findAllAncestorsLoop t [] anc = Some anc"
  by (subst findAllAncestorsLoop.simps) simp

lemma findAllAncestorsLoop_falsy: "findAllAncestorsLoop t (0 # rest) anc = Some anc"
  by (subst findAllAncestorsLoop.simps) simp

lemma findAllAncestorsLoop_absent:
  "i \<noteq> 0 \<Longrightarrow> nodes t i = None \<Longrightarrow>
   findAllAncestorsLoop t (i # rest) anc = findAllAncestorsLoop t rest anc"
  by (subst findAllAncestorsLoop.simps) simp

lemma findAllAncestorsLoop_present:
  "i \<noteq> 0 \<Longrightarrow> nodes t i = Some n \<Longrightarrow>
   findAllAncestorsLoop t (i # rest) anc
     = findAllAncestorsLoop t (rest @ childrenIds n) (anc @ [entry n])"
  by (subst findAllAncestorsLoop.simps) simp

lemma findAllAncestorsLoop_closed:
  assumes wf: "wf {(c, i). i \<in> R \<and> (c, i) \<in> childRel t}"
    and closed: "\<And>i n c. i \<in> R \<Longrightarrow> nodes t i = Some n \<Longrightarrow> c \<in> set (childrenIds n) \<Longrightarrow> c \<in> R"
  shows "set q \<subseteq> R \<Longrightarrow>
     \<exists>res. findAllAncestorsLoop t q anc = Some res
       \<and> (0 \<notin> R \<longrightarrow> set res = set anc \<union> entry ` reachNodes t (set q))"
proof -
  let ?r = "{(c, i). i \<in> R \<and> (c, i) \<in> childRel t}"
  have "wf (inv_image (mult1 ?r) mset)"
    using wf by (intro wf_inv_image wf_mult1)
  then show "set q \<subseteq> R \<Longrightarrow>
     \<exists>res. findAllAncestorsLoop t q anc = Some res
       \<and> (0 \<notin> R \<longrightarrow> set res = set anc \<union> entry ` reachNodes t (set q))"
  proof (induction q arbitrary: anc rule: wf_induct_rule)
    case (less q)
    show ?case
    proof (cases q)
      case Nil
      then show ?thesis by (simp add: findAllAncestorsLoop_Nil)
    next
      case (Cons i rest)
      with less.prems have iR: "i \<in> R" and restR: "set rest \<subseteq> R" by auto
      show ?thesis
      proof (cases "i = 0")
        case True
        with iR Cons show ?thesis by (auto simp: findAllAncestorsLoop_falsy)
      next
        case i0: False
        show ?thesis
        proof (cases "nodes t i")
          case None
          have "(mset rest, mset q) \<in> mult1 ?r"
            unfolding Cons by (rule mult1I [where a = i and ?M0.0 = "mset rest" and K = "{#}"]) simp_all
          then have "(rest, q) \<in> inv_image (mult1 ?r) mset" by simp
          from less.IH [OF this restR, of anc] None i0 show ?thesis
            unfolding Cons by (simp add: findAllAncestorsLoop_absent reachNodes_Cons_absent del: set_simps)
        next
          case (Some n)
          let ?q' = "rest @ childrenIds n"
          have "(mset ?q', mset q) \<in> mult1 ?r"
            unfolding Cons
            by (rule mult1I [where a = i and ?M0.0 = "mset rest" and K = "mset (childrenIds n)"])
               (use Some iR in \<open>auto simp: childRel_def\<close>)
          then have dec: "(?q', q) \<in> inv_image (mult1 ?r) mset" by simp
          have qR: "set ?q' \<subseteq> R" using restR closed [OF iR Some] by auto
          from less.IH [OF dec qR, of "anc @ [entry n]"] obtain res where
            res: "findAllAncestorsLoop t ?q' (anc @ [entry n]) = Some res"
            and sres: "0 \<notin> R \<longrightarrow> set res = set (anc @ [entry n]) \<union> entry ` reachNodes t (set ?q')"
            by blast
          have "findAllAncestorsLoop t q anc = Some res"
            unfolding Cons using res Some i0 by (simp add: findAllAncestorsLoop_present)
          moreover have "set res = set anc \<union> entry ` reachNodes t (set q)" if "0 \<notin> R"
            using sres that unfolding Cons reachNodes_Cons_present [OF Some] by auto
          ultimately show ?thesis by blast
        qed
      qed
    qed
  qed
qed

lemma findAllAncestorsOfNode_returns:
  assumes "acyclicBelow t n"
  shows "\<exists>l. findAllAncestorsOfNode t n = Some l
     \<and> (truthyBelow t n \<longrightarrow> set l = entry ` strictDescendants t n)"
proof -
  have wf: "wf {(c, i). i \<in> descendantIds t n \<and> (c, i) \<in> childRel t}"
    using assms by (simp add: acyclicBelow_def)
  have closed: "c \<in> descendantIds t n"
    if "i \<in> descendantIds t n" "nodes t i = Some m" "c \<in> set (childrenIds m)" for i m c
    using that unfolding descendantIds_def by (rule reachIds.step)
  have sub: "set (childrenIds n) \<subseteq> descendantIds t n"
    unfolding descendantIds_def by (auto intro: reachIds.start)
  from findAllAncestorsLoop_closed
    [where R = "descendantIds t n" and t = t and q = "childrenIds n" and anc = "[]", OF wf closed sub]
  show ?thesis
    by (simp add: findAllAncestorsOfNode_def strictDescendants_def truthyBelow_def)
qed

lemma acyclicBelow_wf: "wf (childRel t) \<Longrightarrow> acyclicBelow t n"
  unfolding acyclicBelow_def by (erule wf_subset) auto

lemma hideLoop_Some:
  "hideLoop etn t acts H = Some H' \<Longrightarrow> H' = H \<union> (\<Union>a\<in>set acts. actionHides etn t a)"
proof (induction acts arbitrary: H)
  case Nil
  then show ?case by simp
next
  case (Cons a acts)
  show ?case
  proof (cases "actionType a")
    case MERGE_FUNCTION
    with Cons.prems have "hideLoop etn t acts (insert (actionEntry a) H) = Some H'" by simp
    from Cons.IH [OF this] MERGE_FUNCTION show ?thesis by (auto simp: actionHides_def)
  next
    case COLLAPSE_FUNCTION
    show ?thesis
    proof (cases "etn (actionEntry a)")
      case None
      with Cons.prems COLLAPSE_FUNCTION have "hideLoop etn t acts H = Some H'" by simp
      from Cons.IH [OF this] COLLAPSE_FUNCTION None show ?thesis by (auto simp: actionHides_def)
    next
      case (Some n)
      with Cons.prems COLLAPSE_FUNCTION obtain l where
        l: "findAllAncestorsOfNode t n = Some l" and "hideLoop etn t acts (H \<union> set l) = Some H'"
        by (auto split: option.splits)
      from Cons.IH [OF this(2)] COLLAPSE_FUNCTION Some l show ?thesis by (auto simp: actionHides_def)
    qed
  qed
qed

lemma hideLoop_total:
  assumes "\<And>a n. a \<in> set acts \<Longrightarrow> actionType a = COLLAPSE_FUNCTION \<Longrightarrow> etn (actionEntry a) = Some n
       \<Longrightarrow> findAllAncestorsOfNode t n \<noteq> None"
  shows "\<exists>H'. hideLoop etn t acts H = Some H'"
  using assms
proof (induction acts arbitrary: H)
  case Nil
  then show ?case by simp
next
  case (Cons a acts)
  have ih: "\<exists>H'. hideLoop etn t acts H0 = Some H'" for H0
  proof (rule Cons.IH)
    fix a' n assume "a' \<in> set acts" "actionType a' = COLLAPSE_FUNCTION" "etn (actionEntry a') = Some n"
    then show "findAllAncestorsOfNode t n \<noteq> None" using Cons.prems [of a' n] by simp
  qed
  show ?case
  proof (cases "actionType a")
    case MERGE_FUNCTION
    then show ?thesis using ih by simp
  next
    case COLLAPSE_FUNCTION
    show ?thesis
    proof (cases "etn (actionEntry a)")
      case None
      then show ?thesis using COLLAPSE_FUNCTION ih by simp
    next
      case (Some n)
      with Cons.prems(1) [of a n] COLLAPSE_FUNCTION obtain l where "findAllAncestorsOfNode t n = Some l"
        by auto
      then show ?thesis using COLLAPSE_FUNCTION Some ih by simp
    qed
  qed
qed

lemma removeFilter_kept:
  "removeFilter a xs = (kept, False) \<Longrightarrow> kept = xs"
  by (induction xs arbitrary: kept) (auto split: prod.splits if_splits)

lemma removeFilter_flag:
  "snd (removeFilter a xs) \<longleftrightarrow> list_ex (\<lambda>b. actionEntry a = actionEntry b \<and> actionType a = actionType b) xs"
  by (induction xs) (auto split: prod.splits)

lemma removeFilter_filter:
  "fst (removeFilter a xs) = filter (\<lambda>b. \<not> (actionType b = actionType a \<and> actionEntry b = actionEntry a)) xs"
  by (induction xs) (auto split: prod.splits)

lemma removeActiveAction_inactive:
  "\<not> actionIsActive s a \<Longrightarrow> removeActiveAction a s = s"
proof -
  assume na: "\<not> actionIsActive s a"
  obtain kept flag where r: "removeFilter a (activeActions s) = (kept, flag)" by force
  with na removeFilter_flag [of a "activeActions s"] have "\<not> flag" by (simp add: actionIsActive_def)
  with r removeFilter_kept [of a "activeActions s" kept] show ?thesis
    by (simp add: removeActiveAction_def)
qed

lemma applyAction_active: "actionIsActive s a \<Longrightarrow> applyAction a s = s"
  by (simp add: applyAction_def)

lemma cacheValid_visibleEntries:
  assumes "cacheValid th etn s" and "visibleEntries s = Some (v, s')"
  shows "cacheValid th etn s'"
proof (cases "activeActions s = []")
  case True
  with assms show ?thesis by (simp add: visibleEntries_def)
next
  case False
  with assms(2) have c: "calculateVisibleEntries s = Some (v, s')" by (simp add: visibleEntries_def)
  show ?thesis
  proof (cases "lastVisibleEntries s")
    case (Some c0)
    with c assms(1) show ?thesis by (simp add: calculateVisibleEntries_def)
  next
    case None
    show ?thesis
    proof (cases "tree (thread s)")
      case N: None
      with c None assms(1) show ?thesis by (simp add: calculateVisibleEntries_def)
    next
      case (Some t)
      with c None obtain H where H: "hideLoop (entryToNode s) t (activeActions s) {} = Some H"
        and s': "s' = s\<lparr>lastVisibleEntries := Some (filter (\<lambda>x. x \<notin> H) (entries (thread s)))\<rparr>"
        by (auto simp: calculateVisibleEntries_def Let_def split: option.splits)
      with assms(1) Some False show ?thesis by (simp add: cacheValid_def)
    qed
  qed
qed

lemma reachable_cacheValid: "reachable th etn s \<Longrightarrow> cacheValid th etn s"
proof (induction rule: reachable.induct)
  case constructed
  show ?case by (simp add: cacheValid_def newTreeManipulator_def)
next
  case (applied s action)
  then show ?case by (simp add: applyAction_def cacheValid_def)
next
  case (removed s action)
  show ?case
  proof (cases "actionIsActive s action")
    case False
    with removed.IH show ?thesis by (simp add: removeActiveAction_inactive)
  next
    case True
    with removeFilter_flag [of action "activeActions s"] have "snd (removeFilter action (activeActions s))"
      by (simp add: actionIsActive_def)
    then obtain kept where "removeFilter action (activeActions s) = (kept, True)"
      by (cases "removeFilter action (activeActions s)") simp
    with removed.IH show ?thesis
      by (simp add: removeActiveAction_def cacheValid_def)
  qed
next
  case (queried s visible s')
  then show ?case by (blast intro: cacheValid_visibleEntries)
qed

lemma visibleEntries_result:
  assumes "cacheValid th etn s" and "tree th = Some t" and "visibleEntries s = Some (vis, s')"
  shows "vis = filter (\<lambda>x. x \<notin> (\<Union>a\<in>set (activeActions s). actionHides etn t a)) (entries th)"
proof (cases "activeActions s = []")
  case True
  with assms show ?thesis by (simp add: visibleEntries_def cacheValid_def)
next
  case False
  with assms(3) have c: "calculateVisibleEntries s = Some (vis, s')" by (simp add: visibleEntries_def)
  from assms(1) have th: "thread s = th" and etn: "entryToNode s = etn" by (simp_all add: cacheValid_def)
  have "\<exists>H. hideLoop etn t (activeActions s) {} = Some H \<and> vis = filter (\<lambda>x. x \<notin> H) (entries th)"
  proof (cases "lastVisibleEntries s")
    case (Some c0)
    with c assms(1,2) show ?thesis by (auto simp: calculateVisibleEntries_def cacheValid_def)
  next
    case None
    with c assms(2) th etn show ?thesis
      by (auto simp: calculateVisibleEntries_def Let_def split: option.splits)
  qed
  then obtain H where H: "hideLoop etn t (activeActions s) {} = Some H"
    and vis: "vis = filter (\<lambda>x. x \<notin> H) (entries th)" by blast
  from hideLoop_Some [OF H] vis show ?thesis by simp
qed

lemma visibleEntries_returns:
  assumes "cacheValid th etn s" and "tree th = Some t"
    and "\<exists>H. hideLoop etn t (activeActions s) {} = Some H"
  shows "\<exists>vis s'. visibleEntries s = Some (vis, s')"
proof -
  from assms(1) have th: "thread s = th" and etn: "entryToNode s = etn" by (simp_all add: cacheValid_def)
  with assms(2,3) show ?thesis
    by (auto simp: visibleEntries_def calculateVisibleEntries_def Let_def split: option.splits)
qed

lemma findAllAncestorsLoop_Cons:
  "findAllAncestorsLoop t (i # rest) anc =
     (if i = 0 then Some anc
      else (case nodes t i of
              Some childNode \<Rightarrow> findAllAncestorsLoop t (rest @ childrenIds childNode) (anc @ [entry childNode])
            | None \<Rightarrow> findAllAncestorsLoop t rest anc))"
  by (subst findAllAncestorsLoop.simps) simp

lemmas run_simps =
  visibleEntries_def calculateVisibleEntries_def applyAction_def removeActiveAction_def
  actionIsActive_def newTreeManipulator_def findAllAncestorsOfNode_def
  findAllAncestorsLoop_Nil findAllAncestorsLoop_Cons
  exampleNodes_def exampleTree_def exampleThread_def exampleLookup_def treelessThread_def
  collapseA_def mergeB_def collapseZ_def Let_def

lemma wf_example: "wf (childRel exampleTree)"
proof (rule wf_subset [OF wf_measure [of "\<lambda>i. 10 - i"]])
  show "childRel exampleTree \<subseteq> measure (\<lambda>i. 10 - i)"
    by (auto simp: childRel_def exampleTree_def exampleNodes_def split: if_splits)
qed

lemma strictDescendants_not_self:
  assumes wf: "acyclicBelow t n" and idx: "knowsDescendants etn t n" and n: "etn x = Some n"
  shows "x \<notin> entry ` strictDescendants t n"
proof
  let ?ids = "set (childrenIds n)"
  let ?r = "{(c, i). i \<in> reachIds t ?ids \<and> (c, i) \<in> childRel t}"
  assume "x \<in> entry ` strictDescendants t n"
  then obtain d where d: "d \<in> reachNodes t ?ids" and xd: "x = entry d"
    by (auto simp: strictDescendants_def)
  have chain: "m \<in> reachNodes t ?ids \<Longrightarrow>
      \<exists>j i. nodes t j = Some m \<and> i \<in> ?ids \<and> j \<in> reachIds t ?ids \<and> (j, i) \<in> ?r\<^sup>*" for m
  proof (induction rule: reachNodes.induct)
    case (start i n')
    then show ?case by (blast intro: reachIds.start)
  next
    case (step m c n')
    then obtain j i where j: "nodes t j = Some m" "i \<in> ?ids" "j \<in> reachIds t ?ids" "(j, i) \<in> ?r\<^sup>*"
      by blast
    from j(1,3) step.hyps(2) have "(c, j) \<in> ?r" by (auto simp: childRel_def)
    from this j(4) have "(c, i) \<in> ?r\<^sup>*" by (rule converse_rtrancl_into_rtrancl)
    moreover from j(3,1) step.hyps(2) have "c \<in> reachIds t ?ids" by (rule reachIds.step)
    ultimately show ?case using step.hyps(3) j(2) by blast
  qed
  from chain [OF d] obtain j i where j: "nodes t j = Some d" "i \<in> ?ids" "j \<in> reachIds t ?ids"
    "(j, i) \<in> ?r\<^sup>*" by blast
  from idx d have "etn (entry d) = Some d" by (simp add: knowsDescendants_def strictDescendants_def)
  with n xd have "d = n" by simp
  with j(1,2,3) have "(i, j) \<in> ?r" by (auto simp: childRel_def)
  from this j(4) have "(i, i) \<in> ?r\<^sup>+" by (rule rtrancl_into_trancl2)
  moreover from wf have "acyclic ?r" by (simp add: acyclicBelow_def descendantIds_def wf_acyclic)
  ultimately show False by (simp add: acyclic_def)
qed

lemma actionHides_merge: "actionType a = MERGE_FUNCTION \<Longrightarrow> actionHides etn t a = {actionEntry a}"
  by (simp add: actionHides_def)

lemma actionHides_hiddenBy:
  assumes "\<forall>m\<in>collapsedNodes etn acts. acyclicBelow t m \<and> truthyBelow t m" and "a \<in> set acts"
  shows "actionHides etn t a = hiddenBy etn t a"
proof (cases "actionType a")
  case MERGE_FUNCTION
  then show ?thesis by (simp add: actionHides_def hiddenBy_def)
next
  case COLLAPSE_FUNCTION
  show ?thesis
  proof (cases "etn (actionEntry a)")
    case None
    with COLLAPSE_FUNCTION show ?thesis by (simp add: actionHides_def hiddenBy_def)
  next
    case (Some m)
    with COLLAPSE_FUNCTION assms have "acyclicBelow t m" "truthyBelow t m"
      by (auto simp: collapsedNodes_def)
    with findAllAncestorsOfNode_returns [of t m] COLLAPSE_FUNCTION Some
    show ?thesis by (auto simp: actionHides_def hiddenBy_def)
  qed
qed

lemma hideLoop_returns_iff:
  "(\<exists>H'. hideLoop etn t acts H = Some H')
     \<longleftrightarrow> (\<forall>n\<in>collapsedNodes etn acts. findAllAncestorsOfNode t n \<noteq> None)"
proof (induction acts arbitrary: H)
  case Nil
  show ?case by (simp add: collapsedNodes_def)
next
  case (Cons a acts)
  have split: "collapsedNodes etn (a # acts) = collapsedNodes etn [a] \<union> collapsedNodes etn acts"
    by (auto simp: collapsedNodes_def)
  show ?case
  proof (cases "actionType a")
    case MERGE_FUNCTION
    then have "collapsedNodes etn [a] = {}" by (simp add: collapsedNodes_def)
    with MERGE_FUNCTION Cons.IH [of "insert (actionEntry a) H"] show ?thesis
      by (simp add: split)
  next
    case COLLAPSE_FUNCTION
    show ?thesis
    proof (cases "etn (actionEntry a)")
      case None
      then have "collapsedNodes etn [a] = {}" by (simp add: collapsedNodes_def)
      with COLLAPSE_FUNCTION None Cons.IH [of H] show ?thesis by (simp add: split)
    next
      case (Some n)
      with COLLAPSE_FUNCTION have one: "collapsedNodes etn [a] = {n}" by (auto simp: collapsedNodes_def)
      show ?thesis
      proof (cases "findAllAncestorsOfNode t n")
        case None
        with COLLAPSE_FUNCTION Some one show ?thesis by (simp add: split)
      next
        case l: (Some l)
        with COLLAPSE_FUNCTION Some one Cons.IH [of "H \<union> set l"] show ?thesis by (simp add: split)
      qed
    qed
  qed
qed

lemma visibleEntries_returns_iff:
  assumes "cacheValid th etn s" and "tree th = Some t"
  shows "(\<exists>vis s'. visibleEntries s = Some (vis, s'))
     \<longleftrightarrow> (\<forall>n\<in>collapsedNodes etn (activeActions s). findAllAncestorsOfNode t n \<noteq> None)"
proof -
  from assms(1) have th: "thread s = th" and etn: "entryToNode s = etn" by (simp_all add: cacheValid_def)
  have "(\<exists>vis s'. visibleEntries s = Some (vis, s')) \<longleftrightarrow> (\<exists>H. hideLoop etn t (activeActions s) {} = Some H)"
  proof (cases "lastVisibleEntries s")
    case None
    with assms(2) th etn show ?thesis
      by (auto simp: visibleEntries_def calculateVisibleEntries_def Let_def split: option.splits)
  next
    case (Some c)
    with assms have "\<exists>H. hideLoop etn t (activeActions s) {} = Some H" by (auto simp: cacheValid_def)
    with visibleEntries_returns [OF assms] show ?thesis by blast
  qed
  then show ?thesis by (simp only: hideLoop_returns_iff)
qed

lemma descendantIds_exampleA: "descendantIds exampleTree \<lparr>entry = ''A'', childrenIds = [4]\<rparr> = {4}"
proof -
  have "i \<in> reachIds exampleTree {4} \<Longrightarrow> i = 4" for i
    by (induction rule: reachIds.induct)
       (auto simp: exampleTree_def exampleNodes_def split: if_splits)
  then show ?thesis by (auto simp: descendantIds_def intro: reachIds.start)
qed

lemma strictDescendants_exampleA:
  "strictDescendants exampleTree \<lparr>entry = ''A'', childrenIds = [4]\<rparr> = {\<lparr>entry = ''A1'', childrenIds = []\<rparr>}"
proof -
  have 4: "nodes exampleTree 4 = Some \<lparr>entry = ''A1'', childrenIds = []\<rparr>"
    by (simp add: exampleTree_def exampleNodes_def)
  show ?thesis
    using reachNodes_present [OF 4] by (simp add: strictDescendants_def)
qed

lemma collapsedNodes_example:
  "collapsedNodes exampleLookup [collapseA, mergeB] = {\<lparr>entry = ''A'', childrenIds = [4]\<rparr>}"
  "collapsedNodes exampleLookup [mergeB, collapseA] = {\<lparr>entry = ''A'', childrenIds = [4]\<rparr>}"
  by (auto simp: collapsedNodes_def collapseA_def mergeB_def exampleLookup_def)

lemma example_action_fields [simp]:
  "actionType collapseA = COLLAPSE_FUNCTION" "actionEntry collapseA = ''A''"
  "actionType mergeB = MERGE_FUNCTION" "actionEntry mergeB = ''B''"
  "actionType collapseZ = COLLAPSE_FUNCTION" "actionEntry collapseZ = ''Z''"
  by (simp_all add: collapseA_def mergeB_def collapseZ_def)

lemma reachable_two_actions:
  "reachable th etn (applyAction b (applyAction a (newTreeManipulator th etn)))"
  by (intro reachable.applied reachable.constructed)

text \<open>
  C8. With no active action, \<open>visibleEntries\<close> returns the entries of the thread as they
  are, and leaves the manipulator as it is.
\<close>

theorem visibleEntries_no_actions:
  "activeActions s = [] \<Longrightarrow> visibleEntries s = Some (entries (thread s), s)"
  by (simp add: visibleEntries_def)

theorem visibleEntries_no_actions_witness:
  "visibleEntries (removeActiveAction mergeB
       (applyAction mergeB (newTreeManipulator exampleThread exampleLookup)))
   = Some ([''R'', ''A'', ''A1'', ''B''],
       removeActiveAction mergeB
         (applyAction mergeB (newTreeManipulator exampleThread exampleLookup)))"
proof -
  have "activeActions (removeActiveAction mergeB
       (applyAction mergeB (newTreeManipulator exampleThread exampleLookup))) = []"
    by (simp add: run_simps)
  from visibleEntries_no_actions [OF this] show ?thesis
    by (simp add: run_simps)
qed

text \<open>
  C9. \<open>applyAction\<close> with an action that is active, and \<open>removeActiveAction\<close> with an
  action that is not, return the manipulator unchanged: the same actions and the same
  cache. A cached list of a manipulator that a client can obtain is then what
  \<open>visibleEntries\<close> returns, with the manipulator unchanged again.
\<close>

theorem inactive_change_keeps_state:
  assumes "(actionIsActive s a \<and> s' = applyAction a s) \<or> (\<not> actionIsActive s a \<and> s' = removeActiveAction a s)"
  shows "s' = s
     \<and> activeActions s' = activeActions s
     \<and> lastVisibleEntries s' = lastVisibleEntries s
     \<and> visibleEntries s' = visibleEntries s
     \<and> (reachable th etn s \<and> lastVisibleEntries s = Some c \<longrightarrow> visibleEntries s' = Some (c, s'))"
proof -
  from assms have eq: "s' = s"
    by (auto simp: applyAction_active removeActiveAction_inactive)
  have "visibleEntries s = Some (c, s)" if "reachable th etn s" "lastVisibleEntries s = Some c"
  proof -
    from that(1) have "cacheValid th etn s" by (rule reachable_cacheValid)
    with that(2) have "activeActions s \<noteq> []" by (simp add: cacheValid_def)
    with that(2) show ?thesis by (simp add: visibleEntries_def calculateVisibleEntries_def)
  qed
  with eq show ?thesis by simp
qed

theorem inactive_change_keeps_state_witness:
  "removeActiveAction collapseZ
     \<lparr>thread = exampleThread, entryToNode = exampleLookup, lastVisibleEntries = Some [''R'', ''A''],
      activeActions = [collapseA, mergeB]\<rparr>
   = \<lparr>thread = exampleThread, entryToNode = exampleLookup, lastVisibleEntries = Some [''R'', ''A''],
      activeActions = [collapseA, mergeB]\<rparr>
   \<and> visibleEntries (removeActiveAction collapseZ
     \<lparr>thread = exampleThread, entryToNode = exampleLookup, lastVisibleEntries = Some [''R'', ''A''],
      activeActions = [collapseA, mergeB]\<rparr>)
   = Some ([''R'', ''A''],
     \<lparr>thread = exampleThread, entryToNode = exampleLookup, lastVisibleEntries = Some [''R'', ''A''],
      activeActions = [collapseA, mergeB]\<rparr>)"
proof -
  let ?s = "\<lparr>thread = exampleThread, entryToNode = exampleLookup, lastVisibleEntries = Some [''R'', ''A''],
      activeActions = [collapseA, mergeB]\<rparr>"
  let ?start = "applyAction mergeB (applyAction collapseA (newTreeManipulator exampleThread exampleLookup))"
  have q: "visibleEntries ?start = Some ([''R'', ''A''], ?s)"
    by (simp add: run_simps)
  have r: "reachable exampleThread exampleLookup ?s"
    using reachable_two_actions q by (rule reachable.queried)
  have i: "\<not> actionIsActive ?s collapseZ"
    by (simp add: actionIsActive_def collapseA_def mergeB_def collapseZ_def)
  have c: "lastVisibleEntries ?s = Some [''R'', ''A'']" by simp
  have d: "(actionIsActive ?s collapseZ \<and> removeActiveAction collapseZ ?s = applyAction collapseZ ?s)
      \<or> (\<not> actionIsActive ?s collapseZ \<and> removeActiveAction collapseZ ?s = removeActiveAction collapseZ ?s)"
    using i by simp
  note k = inactive_change_keeps_state [OF d, of exampleThread exampleLookup "[''R'', ''A'']"]
  from k have e: "removeActiveAction collapseZ ?s = ?s"
    by (elim conjE)
  from k r c have v: "visibleEntries (removeActiveAction collapseZ ?s)
      = Some ([''R'', ''A''], removeActiveAction collapseZ ?s)"
    by blast
  from e v show ?thesis by simp
qed

text \<open>
  C10. On a thread with no tree, \<open>visibleEntries\<close> of a manipulator that a client can
  obtain returns the entries of the thread as they are, whatever actions are active.
\<close>

theorem visibleEntries_without_tree:
  assumes "reachable th etn s" and "tree th = None"
  shows "visibleEntries s = Some (entries th, s)"
proof -
  from assms(1) have cv: "cacheValid th etn s" by (rule reachable_cacheValid)
  with assms(2) have "lastVisibleEntries s = None" and "thread s = th"
    by (auto simp: cacheValid_def split: option.splits)
  with assms(2) show ?thesis by (simp add: visibleEntries_def calculateVisibleEntries_def)
qed

theorem visibleEntries_without_tree_witness:
  "visibleEntries (applyAction mergeB (applyAction collapseA
       (newTreeManipulator treelessThread exampleLookup)))
   = Some ([''R'', ''A'', ''A1'', ''B''],
       applyAction mergeB (applyAction collapseA
         (newTreeManipulator treelessThread exampleLookup)))"
proof -
  have t: "tree treelessThread = None" by (simp add: treelessThread_def)
  from visibleEntries_without_tree [OF reachable_two_actions t] show ?thesis
    by (simp add: treelessThread_def)
qed

text \<open>
  C7, as stated, fails on a thread with no tree: the merged entry \<open>B\<close> stays among the
  visible entries.
\<close>

theorem merge_without_tree_counterexample:
  "visibleEntries (applyAction mergeB (newTreeManipulator treelessThread exampleLookup))
   = Some ([''R'', ''A'', ''A1'', ''B''],
       \<lparr>thread = treelessThread, entryToNode = exampleLookup, lastVisibleEntries = None,
        activeActions = [mergeB]\<rparr>)
   \<and> ''B'' \<in> set [''R'', ''A'', ''A1'', ''B'']"
  by (simp add: run_simps)

text \<open>
  C7 (amended). On a thread with a tree, for a manipulator that a client can obtain:
  \<open>visibleEntries\<close> returns exactly when the traversal of every active
  \<open>COLLAPSE_FUNCTION\<close> action whose entry has a node ends, hence whenever the tree is
  acyclic below those nodes and whenever every active action is a \<open>MERGE_FUNCTION\<close>.
  What it returns is the list of the entries of the thread, in their order, without the
  entries that the active actions hide. A \<open>MERGE_FUNCTION\<close> action hides its entry and
  no other, so its entry is not visible, and with \<open>MERGE_FUNCTION\<close> actions only the
  entries that are not visible are the targets of the actions.
\<close>

theorem merge_hides_exactly_entry:
  assumes "reachable th etn s" and "tree th = Some t"
  shows "((\<exists>vis s'. visibleEntries s = Some (vis, s'))
            \<longleftrightarrow> (\<forall>n\<in>collapsedNodes etn (activeActions s). findAllAncestorsOfNode t n \<noteq> None))
     \<and> ((\<forall>n\<in>collapsedNodes etn (activeActions s). acyclicBelow t n) \<longrightarrow>
           (\<exists>s'. visibleEntries s
              = Some (filter (\<lambda>x. x \<notin> (\<Union>b\<in>set (activeActions s). actionHides etn t b)) (entries th), s')))
     \<and> (visibleEntries s = Some (vis, s') \<longrightarrow>
           vis = filter (\<lambda>x. x \<notin> (\<Union>b\<in>set (activeActions s). actionHides etn t b)) (entries th))
     \<and> (actionType a = MERGE_FUNCTION \<longrightarrow> actionHides etn t a = {actionEntry a})
     \<and> (visibleEntries s = Some (vis, s') \<and> a \<in> set (activeActions s) \<and> actionType a = MERGE_FUNCTION \<longrightarrow>
           actionEntry a \<notin> set vis)
     \<and> ((\<forall>b\<in>set (activeActions s). actionType b = MERGE_FUNCTION) \<longrightarrow>
           (\<exists>s'. visibleEntries s
              = Some (filter (\<lambda>x. x \<notin> actionEntry ` set (activeActions s)) (entries th), s')))"
proof -
  let ?hidden = "\<Union>b\<in>set (activeActions s). actionHides etn t b"
  from assms(1) have cv: "cacheValid th etn s" by (rule reachable_cacheValid)
  note iff = visibleEntries_returns_iff [OF cv assms(2)]
  note res = visibleEntries_result [OF cv assms(2)]
  have total: "\<exists>s'. visibleEntries s = Some (filter (\<lambda>x. x \<notin> ?hidden) (entries th), s')"
    if "\<forall>n\<in>collapsedNodes etn (activeActions s). findAllAncestorsOfNode t n \<noteq> None"
  proof -
    from that iff obtain vis0 s0 where v: "visibleEntries s = Some (vis0, s0)" by blast
    from res [OF v] v show ?thesis by blast
  qed
  have 2: "\<exists>s'. visibleEntries s = Some (filter (\<lambda>x. x \<notin> ?hidden) (entries th), s')"
    if "\<forall>n\<in>collapsedNodes etn (activeActions s). acyclicBelow t n"
  proof (rule total, rule ballI)
    fix n assume "n \<in> collapsedNodes etn (activeActions s)"
    with that have "acyclicBelow t n" by blast
    from findAllAncestorsOfNode_returns [OF this] show "findAllAncestorsOfNode t n \<noteq> None" by auto
  qed
  have 3: "vis = filter (\<lambda>x. x \<notin> ?hidden) (entries th)" if "visibleEntries s = Some (vis, s')"
    using res [OF that] .
  have 4: "actionHides etn t a = {actionEntry a}" if "actionType a = MERGE_FUNCTION"
    using that by (rule actionHides_merge)
  have 5: "actionEntry a \<notin> set vis"
    if "visibleEntries s = Some (vis, s') \<and> a \<in> set (activeActions s) \<and> actionType a = MERGE_FUNCTION"
  proof -
    from that 4 have "actionEntry a \<in> ?hidden" by auto
    with 3 that show ?thesis by simp
  qed
  have 6: "\<exists>s'. visibleEntries s
        = Some (filter (\<lambda>x. x \<notin> actionEntry ` set (activeActions s)) (entries th), s')"
    if all: "\<forall>b\<in>set (activeActions s). actionType b = MERGE_FUNCTION"
  proof -
    from all have "collapsedNodes etn (activeActions s) = {}" by (auto simp: collapsedNodes_def)
    then have "\<exists>s'. visibleEntries s = Some (filter (\<lambda>x. x \<notin> ?hidden) (entries th), s')"
      by (intro total) simp
    moreover have "?hidden = actionEntry ` set (activeActions s)"
      using all by (auto simp: actionHides_merge)
    ultimately show ?thesis by simp
  qed
  from iff 2 3 4 5 6 show ?thesis by blast
qed

theorem merge_hides_exactly_entry_witness:
  "visibleEntries (applyAction collapseA (applyAction mergeB (newTreeManipulator exampleThread exampleLookup)))
   = Some ([''R'', ''A''],
       \<lparr>thread = exampleThread, entryToNode = exampleLookup, lastVisibleEntries = Some [''R'', ''A''],
        activeActions = [mergeB, collapseA]\<rparr>)
   \<and> [''R'', ''A'']
     = filter (\<lambda>x. x \<notin> (\<Union>b\<in>set [mergeB, collapseA]. actionHides exampleLookup exampleTree b))
         [''R'', ''A'', ''A1'', ''B'']
   \<and> actionHides exampleLookup exampleTree mergeB = {''B''}
   \<and> ''B'' \<notin> set [''R'', ''A'']"
proof -
  let ?s = "applyAction collapseA (applyAction mergeB (newTreeManipulator exampleThread exampleLookup))"
  let ?s' = "\<lparr>thread = exampleThread, entryToNode = exampleLookup, lastVisibleEntries = Some [''R'', ''A''],
        activeActions = [mergeB, collapseA]\<rparr>"
  have r: "reachable exampleThread exampleLookup ?s" by (rule reachable_two_actions)
  have t: "tree exampleThread = Some exampleTree" by (simp add: exampleThread_def)
  have e: "entries exampleThread = [''R'', ''A'', ''A1'', ''B'']" by (simp add: exampleThread_def)
  have q: "visibleEntries ?s = Some ([''R'', ''A''], ?s')"
    by (simp add: run_simps)
  have a: "activeActions ?s = [mergeB, collapseA]"
    by (simp add: run_simps)
  note inst = merge_hides_exactly_entry [OF r t, where vis = "[''R'', ''A'']" and s' = ?s' and a = mergeB]
  from inst q have "[''R'', ''A'']
     = filter (\<lambda>x. x \<notin> (\<Union>b\<in>set (activeActions ?s). actionHides exampleLookup exampleTree b))
         (entries exampleThread)"
    by blast
  then have 1: "[''R'', ''A'']
     = filter (\<lambda>x. x \<notin> (\<Union>b\<in>set [mergeB, collapseA]. actionHides exampleLookup exampleTree b))
         [''R'', ''A'', ''A1'', ''B'']"
    by (simp only: a e)
  from inst have 2: "actionHides exampleLookup exampleTree mergeB = {''B''}" by simp
  from q 1 2 show ?thesis by simp
qed

text \<open>
  C1. On a thread with a tree, for a manipulator that a client can obtain, let the tree
  be acyclic below the node of every active \<open>COLLAPSE_FUNCTION\<close> action, with no falsy id
  below it (the id \<open>0\<close>, at which the traversal would leave its loop). Then
  \<open>visibleEntries\<close> returns the entries of the thread, in their order, without the
  entries that the active actions hide. An active \<open>COLLAPSE_FUNCTION\<close> action whose entry
  has a node hides exactly the entries of the strict descendants of that node: they are
  what its traversal returns. It does not hide its own entry, when the lookup knows the
  strict descendants of the node. A \<open>COLLAPSE_FUNCTION\<close> action whose entry has no node
  hides nothing, and the loop over the actions goes on to the next action.
\<close>

theorem collapse_hides_strict_descendants:
  assumes "reachable th etn s" and "tree th = Some t"
    and "\<forall>m\<in>collapsedNodes etn (activeActions s). acyclicBelow t m \<and> truthyBelow t m"
  shows "(\<exists>s'. visibleEntries s
            = Some (filter (\<lambda>x. x \<notin> hiddenEntries etn t (activeActions s)) (entries th), s'))
     \<and> (actionType a = COLLAPSE_FUNCTION \<and> etn (actionEntry a) = None \<longrightarrow>
            hiddenBy etn t a = {} \<and> hideLoop etn t (a # rest) H = hideLoop etn t rest H)
     \<and> (a \<in> set (activeActions s) \<and> actionType a = COLLAPSE_FUNCTION \<and> etn (actionEntry a) = Some n \<longrightarrow>
            hiddenBy etn t a = entry ` strictDescendants t n
          \<and> (\<exists>l. findAllAncestorsOfNode t n = Some l \<and> set l = entry ` strictDescendants t n)
          \<and> (knowsDescendants etn t n \<longrightarrow> actionEntry a \<notin> hiddenBy etn t a))"
proof (intro conjI)
  from assms(1) have cv: "cacheValid th etn s" by (rule reachable_cacheValid)
  have below: "acyclicBelow t m \<and> truthyBelow t m" if "m \<in> collapsedNodes etn (activeActions s)" for m
    using assms(3) that by blast
  have "\<forall>m\<in>collapsedNodes etn (activeActions s). findAllAncestorsOfNode t m \<noteq> None"
  proof
    fix m assume "m \<in> collapsedNodes etn (activeActions s)"
    from below [OF this] findAllAncestorsOfNode_returns [of t m]
    show "findAllAncestorsOfNode t m \<noteq> None" by auto
  qed
  with visibleEntries_returns_iff [OF cv assms(2)] obtain vis s' where
    v: "visibleEntries s = Some (vis, s')" by blast
  have "(\<Union>b\<in>set (activeActions s). actionHides etn t b) = hiddenEntries etn t (activeActions s)"
    using actionHides_hiddenBy [OF assms(3)] by (simp add: hiddenEntries_def)
  with visibleEntries_result [OF cv assms(2) v] have
    "vis = filter (\<lambda>x. x \<notin> hiddenEntries etn t (activeActions s)) (entries th)"
    by simp
  with v show "\<exists>s'. visibleEntries s
      = Some (filter (\<lambda>x. x \<notin> hiddenEntries etn t (activeActions s)) (entries th), s')" by blast
  show "actionType a = COLLAPSE_FUNCTION \<and> etn (actionEntry a) = None \<longrightarrow>
      hiddenBy etn t a = {} \<and> hideLoop etn t (a # rest) H = hideLoop etn t rest H"
    by (simp add: hiddenBy_def)
  show "a \<in> set (activeActions s) \<and> actionType a = COLLAPSE_FUNCTION \<and> etn (actionEntry a) = Some n \<longrightarrow>
            hiddenBy etn t a = entry ` strictDescendants t n
          \<and> (\<exists>l. findAllAncestorsOfNode t n = Some l \<and> set l = entry ` strictDescendants t n)
          \<and> (knowsDescendants etn t n \<longrightarrow> actionEntry a \<notin> hiddenBy etn t a)"
  proof (intro impI, elim conjE)
    assume a: "a \<in> set (activeActions s)" "actionType a = COLLAPSE_FUNCTION" "etn (actionEntry a) = Some n"
    then have "n \<in> collapsedNodes etn (activeActions s)" by (auto simp: collapsedNodes_def)
    from below [OF this] have ac: "acyclicBelow t n" and tr: "truthyBelow t n" by simp_all
    have h: "hiddenBy etn t a = entry ` strictDescendants t n"
      using a by (simp add: hiddenBy_def)
    from findAllAncestorsOfNode_returns [OF ac] tr
    have l: "\<exists>l. findAllAncestorsOfNode t n = Some l \<and> set l = entry ` strictDescendants t n"
      by blast
    have "actionEntry a \<notin> hiddenBy etn t a" if "knowsDescendants etn t n"
      using strictDescendants_not_self [OF ac that a(3)] h by simp
    with h l show "hiddenBy etn t a = entry ` strictDescendants t n
          \<and> (\<exists>l. findAllAncestorsOfNode t n = Some l \<and> set l = entry ` strictDescendants t n)
          \<and> (knowsDescendants etn t n \<longrightarrow> actionEntry a \<notin> hiddenBy etn t a)"
      by blast
  qed
qed

theorem collapse_hides_strict_descendants_witness:
  "visibleEntries (applyAction mergeB (applyAction collapseA
       (newTreeManipulator exampleThread exampleLookup)))
   = Some ([''R'', ''A''],
       \<lparr>thread = exampleThread, entryToNode = exampleLookup, lastVisibleEntries = Some [''R'', ''A''],
        activeActions = [collapseA, mergeB]\<rparr>)
   \<and> (\<exists>s'. visibleEntries (applyAction mergeB (applyAction collapseA
         (newTreeManipulator exampleThread exampleLookup)))
        = Some (filter (\<lambda>x. x \<notin> hiddenEntries exampleLookup exampleTree [collapseA, mergeB])
            [''R'', ''A'', ''A1'', ''B''], s'))
   \<and> hiddenBy exampleLookup exampleTree collapseA = {''A1''}
   \<and> (\<exists>l. findAllAncestorsOfNode exampleTree \<lparr>entry = ''A'', childrenIds = [4]\<rparr> = Some l \<and> set l = {''A1''})
   \<and> ''A'' \<notin> hiddenBy exampleLookup exampleTree collapseA
   \<and> hiddenBy exampleLookup exampleTree collapseZ = {}"
proof -
  let ?s = "applyAction mergeB (applyAction collapseA (newTreeManipulator exampleThread exampleLookup))"
  have t: "tree exampleThread = Some exampleTree" by (simp add: exampleThread_def)
  have e: "entries exampleThread = [''R'', ''A'', ''A1'', ''B'']" by (simp add: exampleThread_def)
  have q: "visibleEntries ?s = Some ([''R'', ''A''],
       \<lparr>thread = exampleThread, entryToNode = exampleLookup, lastVisibleEntries = Some [''R'', ''A''],
        activeActions = [collapseA, mergeB]\<rparr>)"
    by (simp add: run_simps)
  have a: "activeActions ?s = [collapseA, mergeB]"
    by (simp add: run_simps)
  have n: "exampleLookup ''A'' = Some \<lparr>entry = ''A'', childrenIds = [4]\<rparr>" by (simp add: exampleLookup_def)
  have z: "exampleLookup ''Z'' = None" by (simp add: exampleLookup_def)
  have ac: "acyclicBelow exampleTree \<lparr>entry = ''A'', childrenIds = [4]\<rparr>"
    using wf_example by (rule acyclicBelow_wf)
  have tr: "truthyBelow exampleTree \<lparr>entry = ''A'', childrenIds = [4]\<rparr>"
    by (simp add: truthyBelow_def descendantIds_exampleA)
  have k: "knowsDescendants exampleLookup exampleTree \<lparr>entry = ''A'', childrenIds = [4]\<rparr>"
    by (simp add: knowsDescendants_def strictDescendants_exampleA exampleLookup_def)
  have r: "reachable exampleThread exampleLookup ?s" by (rule reachable_two_actions)
  have w: "\<forall>m\<in>collapsedNodes exampleLookup (activeActions ?s).
      acyclicBelow exampleTree m \<and> truthyBelow exampleTree m"
    using ac tr by (simp only: a collapsedNodes_example) simp
  note inst = collapse_hides_strict_descendants [OF r t w]
  from inst [where a = collapseA and n = "\<lparr>entry = ''A'', childrenIds = [4]\<rparr>"]
  have "\<exists>s'. visibleEntries ?s
        = Some (filter (\<lambda>x. x \<notin> hiddenEntries exampleLookup exampleTree (activeActions ?s))
            (entries exampleThread), s')"
    by (rule conjunct1)
  then have 1: "\<exists>s'. visibleEntries ?s
        = Some (filter (\<lambda>x. x \<notin> hiddenEntries exampleLookup exampleTree [collapseA, mergeB])
            [''R'', ''A'', ''A1'', ''B''], s')"
    by (simp only: a e)
  have in_a: "collapseA \<in> set (activeActions ?s)" by (simp only: a) simp
  from inst [where a = collapseA and n = "\<lparr>entry = ''A'', childrenIds = [4]\<rparr>"] in_a n k
  have 2: "hiddenBy exampleLookup exampleTree collapseA = entry ` strictDescendants exampleTree \<lparr>entry = ''A'', childrenIds = [4]\<rparr>"
    and 3: "\<exists>l. findAllAncestorsOfNode exampleTree \<lparr>entry = ''A'', childrenIds = [4]\<rparr> = Some l
        \<and> set l = entry ` strictDescendants exampleTree \<lparr>entry = ''A'', childrenIds = [4]\<rparr>"
    and 4: "''A'' \<notin> hiddenBy exampleLookup exampleTree collapseA"
    by auto
  from inst [where a = collapseZ] z
  have 5: "hiddenBy exampleLookup exampleTree collapseZ = {}"
    by simp
  from q 1 2 3 4 5 show ?thesis by (simp add: strictDescendants_exampleA)
qed

end
